theory Spec2Isabelle
  imports Complex_Main "HOL-Library.Char_ord" "HOL-Library.List_Lexorder" "HOL-Library.Multiset"
begin

section \<open>pyzenkit.zendaemon: the event-driven daemon engine\<close>

text \<open>
  A shallow embedding of \<^verbatim>\<open>src/pyzenkit/zendaemon.py\<close>. Python exceptions are values
  of the type \<open>exn\<close>; a function that may raise returns \<open>exn + 'a\<close> with \<open>Inl\<close> the
  exception. A clock reading or a due time is a Python float, that is a rational number, and
  Python compares floats exactly; so times are rationals and their comparisons are those of
  the code. Where the code computes with numbers (the \<^verbatim>\<open>+\<close> of
  \<^verbatim>\<open>schedule_after\<close>, the \<^verbatim>\<open>-\<close> of \<^verbatim>\<open>wait\<close>, the \<^verbatim>\<open>-\<close> and \<^verbatim>\<open>/\<close> of
  \<^verbatim>\<open>calc_statistics\<close>), Python's operation is a parameter of the model, and nothing is
  assumed about how it rounds or when it raises.
  Strings are compared as Python compares them, lexicographically by character code.
\<close>

datatype exn =
    QueueEmptyException string
  | ZenDaemonException string
  | TypeError
  | IndexError
  | AttributeError
  | ZeroDivisionError
  | KeyboardInterrupt
  | OtherException string

subsection \<open>The standard library's heapq on a Python list\<close>

text \<open>
  A timed entry is the tuple \<^verbatim>\<open>(tstamp, event, args)\<close>. The payload \<^verbatim>\<open>args\<close> is
  \<^verbatim>\<open>None\<close> (\<open>None\<close>) or a dictionary (\<open>Some d\<close>); dictionaries support \<^verbatim>\<open>==\<close> but
  not \<^verbatim>\<open><\<close>.

  \<open>tuple_lt\<close> is Python's \<^verbatim>\<open><\<close> on two such tuples: the first position where the tuples
  differ decides, and comparing two different payloads there raises \<^verbatim>\<open>TypeError\<close>.
\<close>

type_synonym 'a entry = "rat \<times> string \<times> 'a option"

fun tuple_lt :: "'a entry \<Rightarrow> 'a entry \<Rightarrow> exn + bool" where
  "tuple_lt (t1, e1, a1) (t2, e2, a2) =
     (if t1 \<noteq> t2 then Inr (t1 < t2)
      else if e1 \<noteq> e2 then Inr (e1 < e2)
      else if a1 \<noteq> a2 then Inl TypeError
      else Inr False)"

text \<open>
  \<^verbatim>\<open>heapq._siftdown(heap, startpos, pos)\<close>: the loop carries \<^verbatim>\<open>newitem\<close> towards the
  root while it is smaller than its parent.
\<close>

function siftdown_loop :: "'a entry list \<Rightarrow> nat \<Rightarrow> 'a entry \<Rightarrow> nat \<Rightarrow> exn + 'a entry list" where
  "siftdown_loop heap startpos newitem pos =
     (if pos > startpos then
        (let parentpos = (pos - 1) div 2;
             parent = heap ! parentpos
         in case tuple_lt newitem parent of
              Inl e \<Rightarrow> Inl e
            | Inr lt \<Rightarrow>
                if lt then siftdown_loop (heap[pos := parent]) startpos newitem parentpos
                else Inr (heap[pos := newitem]))
      else Inr (heap[pos := newitem]))"
  by pat_completeness auto
termination
  by (relation "measure (\<lambda>(heap, startpos, newitem, pos). pos)") auto

declare siftdown_loop.simps [simp del]

definition siftdown :: "'a entry list \<Rightarrow> nat \<Rightarrow> nat \<Rightarrow> exn + 'a entry list" where
  "siftdown heap startpos pos =
     (if pos < length heap then siftdown_loop heap startpos (heap ! pos) pos
      else Inl IndexError)"

text \<open>
  \<^verbatim>\<open>heapq._siftup(heap, pos)\<close>: the loop moves the smaller child up until a leaf is
  reached and returns the heap with the position of that leaf; \<^verbatim>\<open>newitem\<close> is then
  stored there and sifted down.
\<close>

function siftup_loop :: "'a entry list \<Rightarrow> nat \<Rightarrow> exn + ('a entry list \<times> nat)" where
  "siftup_loop heap pos =
     (let endpos = length heap; childpos = 2 * pos + 1 in
      if childpos < endpos then
        (let rightpos = childpos + 1 in
         if rightpos < endpos then
           (case tuple_lt (heap ! childpos) (heap ! rightpos) of
              Inl e \<Rightarrow> Inl e
            | Inr lt \<Rightarrow>
                (let c = (if \<not> lt then rightpos else childpos)
                 in siftup_loop (heap[pos := heap ! c]) c))
         else siftup_loop (heap[pos := heap ! childpos]) childpos)
      else Inr (heap, pos))"
  by pat_completeness auto
termination
  by (relation "measure (\<lambda>(heap, pos). length heap - pos)") auto

declare siftup_loop.simps [simp del]

definition siftup :: "'a entry list \<Rightarrow> nat \<Rightarrow> exn + 'a entry list" where
  "siftup heap pos =
     (if pos < length heap then
        (let newitem = heap ! pos in
         case siftup_loop heap pos of
           Inl e \<Rightarrow> Inl e
         | Inr (heap', pos') \<Rightarrow> siftdown (heap'[pos' := newitem]) pos pos')
      else Inl IndexError)"

definition heappush :: "'a entry list \<Rightarrow> 'a entry \<Rightarrow> exn + 'a entry list" where
  "heappush heap item = siftdown (heap @ [item]) 0 (length heap)"

definition heappop :: "'a entry list \<Rightarrow> exn + ('a entry \<times> 'a entry list)" where
  "heappop heap =
     (if heap = [] then Inl IndexError
      else
        (let lastelt = last heap; heap1 = butlast heap in
         if heap1 \<noteq> [] then
           (let returnitem = heap1 ! 0 in
            case siftup (heap1[0 := lastelt]) 0 of
              Inl e \<Rightarrow> Inl e
            | Inr heap2 \<Rightarrow> Inr (returnitem, heap2))
         else Inr (lastelt, heap1)))"

text \<open>
  The order that \<^verbatim>\<open>heapq\<close> keeps when no comparison raises: \<open>key_le\<close> compares two
  entries by the pair \<^verbatim>\<open>(tstamp, event)\<close>, the due time first and the event name second.
  \<open>heap_invariant\<close> is the heap property of a list in that order, as the documentation of
  \<^verbatim>\<open>heapq\<close> states it: \<^verbatim>\<open>heap[(k - 1) // 2] <= heap[k]\<close> for every position \<open>k\<close>
  but the first.
\<close>

definition key_le :: "'a entry \<Rightarrow> 'a entry \<Rightarrow> bool" where
  "key_le x y = (fst x < fst y \<or> (fst x = fst y \<and> fst (snd x) \<le> fst (snd y)))"

definition heap_invariant :: "'a entry list \<Rightarrow> bool" where
  "heap_invariant heap =
     list_all (\<lambda>c. key_le (heap ! ((c - 1) div 2)) (heap ! c)) [1..<length heap]"

subsection \<open>EventQueueManager\<close>

text \<open>
  \<open>events\<close> is the deque of immediate entries \<^verbatim>\<open>(event, args)\<close>, \<open>events_at\<close> the list
  that \<^verbatim>\<open>heapq\<close> keeps as a binary heap. Event names are strings. The methods
  \<^verbatim>\<open>next\<close>, \<^verbatim>\<open>when\<close>, \<^verbatim>\<open>wait\<close> and \<^verbatim>\<open>count\<close> are \<open>queue_next\<close>,
  \<open>queue_when\<close>, \<open>queue_wait\<close> and \<open>queue_count\<close>. A method that calls
  \<^verbatim>\<open>time.time()\<close> takes the value read as its parameter \<open>now\<close>. Python's \<^verbatim>\<open>+\<close> and
  \<^verbatim>\<open>-\<close> on two floats, which round, are the parameters \<open>fadd\<close> of
  \<open>schedule_after\<close> and \<open>fsub\<close> of \<open>queue_wait\<close>.
\<close>

record 'a EventQueueManager =
  events :: "(string \<times> 'a option) list"
  events_at :: "'a entry list"

definition init_queue :: "'a EventQueueManager" where
  "init_queue = \<lparr>events = [], events_at = []\<rparr>"

definition schedule :: "'a EventQueueManager \<Rightarrow> string \<Rightarrow> 'a option \<Rightarrow> 'a EventQueueManager" where
  "schedule q event args = q\<lparr>events := events q @ [(event, args)]\<rparr>"

definition schedule_next :: "'a EventQueueManager \<Rightarrow> string \<Rightarrow> 'a option \<Rightarrow> 'a EventQueueManager" where
  "schedule_next q event args = q\<lparr>events := (event, args) # events q\<rparr>"

definition schedule_at ::
  "'a EventQueueManager \<Rightarrow> rat \<Rightarrow> string \<Rightarrow> 'a option \<Rightarrow> exn + 'a EventQueueManager" where
  "schedule_at q tstamp event args =
     (case heappush (events_at q) (tstamp, event, args) of
        Inl e \<Rightarrow> Inl e
      | Inr heap \<Rightarrow> Inr (q\<lparr>events_at := heap\<rparr>))"

definition schedule_after ::
  "(rat \<Rightarrow> rat \<Rightarrow> rat) \<Rightarrow> 'a EventQueueManager \<Rightarrow> rat \<Rightarrow> rat \<Rightarrow> string \<Rightarrow> 'a option \<Rightarrow>
   exn + 'a EventQueueManager" where
  "schedule_after fadd q now delay event args =
     (let tstamp = fadd now delay in
      case heappush (events_at q) (tstamp, event, args) of
        Inl e \<Rightarrow> Inl e
      | Inr heap \<Rightarrow> Inr (q\<lparr>events_at := heap\<rparr>))"

text \<open>
  \<^verbatim>\<open>next()\<close> returns the pair \<^verbatim>\<open>(event, args)\<close>; the placeholder
  \<^verbatim>\<open>(None, None)\<close> is \<open>(None, None)\<close> and a real event \<open>e\<close> is \<open>Some e\<close>. The queue
  after the call is returned with it.
\<close>

definition queue_next ::
  "'a EventQueueManager \<Rightarrow> rat \<Rightarrow> exn + ((string option \<times> 'a option) \<times> 'a EventQueueManager)" where
  "queue_next q now =
     (let len1 = length (events_at q) in
      if len1 \<noteq> 0 \<and> fst (events_at q ! 0) \<le> now then
        (case heappop (events_at q) of
           Inl e \<Rightarrow> Inl e
         | Inr ((tstamp, event, args), heap) \<Rightarrow> Inr ((Some event, args), q\<lparr>events_at := heap\<rparr>))
      else
        (let len2 = length (events q) in
         if len2 \<noteq> 0 then
           (case events q of
              (event, args) # rest \<Rightarrow> Inr ((Some event, args), q\<lparr>events := rest\<rparr>))
         else if len1 + len2 = 0 then Inl (QueueEmptyException ''Event queue is empty'')
         else Inr ((None, None), q)))"

definition queue_when :: "'a EventQueueManager \<Rightarrow> rat \<Rightarrow> exn + rat" where
  "queue_when q now =
     (if events q \<noteq> [] then Inr now
      else if events_at q = [] then Inl IndexError
      else Inr (fst (events_at q ! 0)))"

definition queue_wait ::
  "(rat \<Rightarrow> rat \<Rightarrow> rat) \<Rightarrow> 'a EventQueueManager \<Rightarrow> rat \<Rightarrow> exn + rat" where
  "queue_wait fsub q now =
     (if events q \<noteq> [] then Inr 0
      else if events_at q = [] then Inl IndexError
      else Inr (fsub (fst (events_at q ! 0)) now))"

definition queue_count :: "'a EventQueueManager \<Rightarrow> nat" where
  "queue_count q = length (events_at q) + length (events q)"

text \<open>
  Helpers for stating properties of call sequences: \<open>schedule_all\<close> is a sequence of
  \<^verbatim>\<open>schedule(event, args)\<close> calls, \<open>next_calls\<close> a sequence of successive
  \<^verbatim>\<open>next()\<close> calls, one for each clock reading of the list, collecting what they return;
  \<open>returned\<close> is the pair \<^verbatim>\<open>next()\<close> returns for a FIFO entry.
\<close>

fun schedule_all :: "'a EventQueueManager \<Rightarrow> (string \<times> 'a option) list \<Rightarrow> 'a EventQueueManager" where
  "schedule_all q [] = q"
| "schedule_all q ((event, args) # es) = schedule_all (schedule q event args) es"

fun next_calls ::
  "'a EventQueueManager \<Rightarrow> rat list \<Rightarrow>
   exn + ((string option \<times> 'a option) list \<times> 'a EventQueueManager)" where
  "next_calls q [] = Inr ([], q)"
| "next_calls q (now # nows) =
     (case queue_next q now of
        Inl e \<Rightarrow> Inl e
      | Inr (r, q1) \<Rightarrow>
          (case next_calls q1 nows of
             Inl e \<Rightarrow> Inl e
           | Inr (rs, q2) \<Rightarrow> Inr (r # rs, q2)))"

definition returned :: "string \<times> 'a option \<Rightarrow> string option \<times> 'a option" where
  "returned ea = (Some (fst ea), snd ea)"

subsection \<open>calc_statistics\<close>

text \<open>
  A statistics tree is a dictionary whose values are numbers or dictionaries again; a
  dictionary is the list of its items in iteration order. The result holds, for each number,
  the dictionary with the keys \<^verbatim>\<open>cnt\<close>, \<^verbatim>\<open>inc\<close>, \<^verbatim>\<open>spd\<close> and \<^verbatim>\<open>pct\<close>.

  Python's numbers (integers and floats) are the values of a type \<open>'n\<close>, and Python's
  arithmetic on them is a parameter of the model: \<open>num_sub\<close> is \<^verbatim>\<open>-\<close> and
  \<open>num_truediv\<close> is \<^verbatim>\<open>/\<close> on two numbers, each of which returns a number or raises
  (the rounding of floats, the \<^verbatim>\<open>OverflowError\<close> for an integer too large for a float
  and the \<^verbatim>\<open>ZeroDivisionError\<close> are theirs); \<open>num_zero\<close> and \<open>num_hundred\<close> are the
  literals \<^verbatim>\<open>0\<close> and \<^verbatim>\<open>100\<close>.

  \<open>py_get\<close> is \<^verbatim>\<open>stats_prev.get(key, default)\<close>, an \<^verbatim>\<open>AttributeError\<close> when
  \<^verbatim>\<open>stats_prev\<close> is a number; \<open>py_sub\<close> is \<^verbatim>\<open>-\<close> with a number on the left, a
  \<^verbatim>\<open>TypeError\<close> when the right operand is a dictionary. \<open>and_then\<close> passes a value on
  and lets the first exception through.
\<close>

definition and_then :: "exn + 'a \<Rightarrow> ('a \<Rightarrow> exn + 'b) \<Rightarrow> exn + 'b" where
  "and_then r f = (case r of Inl e \<Rightarrow> Inl e | Inr x \<Rightarrow> f x)"

record 'n arith =
  num_sub :: "'n \<Rightarrow> 'n \<Rightarrow> exn + 'n"
  num_truediv :: "'n \<Rightarrow> 'n \<Rightarrow> exn + 'n"
  num_zero :: 'n
  num_hundred :: 'n

datatype 'n pyval = Num 'n | Dict "(string \<times> 'n pyval) list"

record 'n stat_record =
  cnt :: 'n
  inc :: 'n
  spd :: 'n
  pct :: 'n

datatype 'n stat_tree = Leaf "'n stat_record" | Node "(string \<times> 'n stat_tree) list"

fun py_get :: "'n pyval \<Rightarrow> string \<Rightarrow> 'n pyval \<Rightarrow> exn + 'n pyval" where
  "py_get (Dict d) key dflt = Inr (case map_of d key of None \<Rightarrow> dflt | Some v \<Rightarrow> v)"
| "py_get (Num n) key dflt = Inl AttributeError"

fun py_sub :: "'n arith \<Rightarrow> 'n \<Rightarrow> 'n pyval \<Rightarrow> exn + 'n" where
  "py_sub ar x (Num y) = num_sub ar x y"
| "py_sub ar x (Dict d) = Inl TypeError"

text \<open>
  The dictionary literal of the \<^verbatim>\<open>else\<close> branch, for the current value \<open>cur\<close> of
  \<^verbatim>\<open>stats_cur[key]\<close>. Its four values are evaluated in the order written; \<open>delta\<close> is
  the expression \<^verbatim>\<open>stats_cur[key] - stats_prev.get(key, 0)\<close> that three of them share.
\<close>

definition leaf_record ::
  "'n arith \<Rightarrow> 'n \<Rightarrow> 'n pyval \<Rightarrow> string \<Rightarrow> 'n \<Rightarrow> exn + 'n stat_record" where
  "leaf_record ar cur stats_prev key tdiff =
     (let delta = and_then (py_get stats_prev key (Num (num_zero ar))) (py_sub ar cur) in
      and_then delta (\<lambda>i.
      and_then (and_then delta (\<lambda>d. num_truediv ar d tdiff)) (\<lambda>s.
      and_then (and_then delta (\<lambda>d.
                  and_then (num_truediv ar cur (num_hundred ar)) (num_truediv ar d))) (\<lambda>p.
      Inr \<lparr>cnt = cur, inc = i, spd = s, pct = p\<rparr>))))"

text \<open>
  \<^verbatim>\<open>calc_statistics(stats_cur, stats_prev, tdiff)\<close>: the loop over the keys of
  \<^verbatim>\<open>stats_cur\<close> is the recursion over its items.
\<close>

fun calc_statistics ::
  "'n arith \<Rightarrow> (string \<times> 'n pyval) list \<Rightarrow> 'n pyval \<Rightarrow> 'n \<Rightarrow>
   exn + (string \<times> 'n stat_tree) list" where
  "calc_statistics ar [] stats_prev tdiff = Inr []"
| "calc_statistics ar ((key, Dict sub) # rest) stats_prev tdiff =
     (case py_get stats_prev key (Dict []) of
        Inl e \<Rightarrow> Inl e
      | Inr prev_sub \<Rightarrow>
          (case calc_statistics ar sub prev_sub tdiff of
             Inl e \<Rightarrow> Inl e
           | Inr r \<Rightarrow>
               (case calc_statistics ar rest stats_prev tdiff of
                  Inl e \<Rightarrow> Inl e
                | Inr result \<Rightarrow> Inr ((key, Node r) # result))))"
| "calc_statistics ar ((key, Num cur) # rest) stats_prev tdiff =
     (case leaf_record ar cur stats_prev key tdiff of
        Inl e \<Rightarrow> Inl e
      | Inr r \<Rightarrow>
          (case calc_statistics ar rest stats_prev tdiff of
             Inl e \<Rightarrow> Inl e
           | Inr result \<Rightarrow> Inr ((key, Leaf r) # result)))"

text \<open>
  Counters inside nested dictionaries are named by the path of keys that leads to them:
  \<open>value_at\<close> is \<^verbatim>\<open>stats_cur[k1][k2]...\<close>, \<open>result_at\<close> the same in a result, and
  \<open>prev_at\<close> is the previous subtree that the recursion has reached when it arrives at the
  path, each step being \<^verbatim>\<open>stats_prev.get(key, {})\<close>.
\<close>

fun value_at :: "'n pyval \<Rightarrow> string list \<Rightarrow> 'n pyval option" where
  "value_at v [] = Some v"
| "value_at (Dict d) (k # ks) = (case map_of d k of None \<Rightarrow> None | Some v \<Rightarrow> value_at v ks)"
| "value_at (Num n) (k # ks) = None"

fun result_at :: "'n stat_tree \<Rightarrow> string list \<Rightarrow> 'n stat_tree option" where
  "result_at t [] = Some t"
| "result_at (Node d) (k # ks) = (case map_of d k of None \<Rightarrow> None | Some t \<Rightarrow> result_at t ks)"
| "result_at (Leaf r) (k # ks) = None"

fun prev_at :: "'n pyval \<Rightarrow> string list \<Rightarrow> exn + 'n pyval" where
  "prev_at v [] = Inr v"
| "prev_at v (k # ks) = and_then (py_get v k (Dict [])) (\<lambda>p. prev_at p ks)"

text \<open>\<open>all_leaves P t\<close>: every record of the result tree \<open>t\<close> satisfies \<open>P\<close>.\<close>

fun all_leaves :: "('n stat_record \<Rightarrow> bool) \<Rightarrow> (string \<times> 'n stat_tree) list \<Rightarrow> bool" where
  "all_leaves P [] = True"
| "all_leaves P ((key, Leaf r) # rest) = (P r \<and> all_leaves P rest)"
| "all_leaves P ((key, Node sub) # rest) = (all_leaves P sub \<and> all_leaves P rest)"

text \<open>
  An arithmetic for the examples: rational numbers with exact differences and quotients, as
  Python's \<^verbatim>\<open>fractions.Fraction\<close> computes them. The examples use it on values for which
  the results of Python's integers and floats are exact as well.
\<close>

definition exact_arith :: "rat arith" where
  "exact_arith =
     \<lparr>num_sub = (\<lambda>x y. Inr (x - y)),
      num_truediv = (\<lambda>x y. if y = 0 then Inl ZeroDivisionError else Inr (x / y)),
      num_zero = 0,
      num_hundred = 100\<rparr>"

subsection \<open>Parallel-mode file names and PID-file enumeration\<close>

text \<open>
  \<open>format_05d\<close> is \<^verbatim>\<open>"{:05d}".format(n)\<close> for a process id \<open>n\<close>: the decimal digits
  of \<open>n\<close>, padded with zeros on the left up to the width 5.
\<close>

definition digit_char :: "nat \<Rightarrow> char" where
  "digit_char d = ''0123456789'' ! d"

fun str_nat :: "nat \<Rightarrow> string" where
  "str_nat n = (if n < 10 then [digit_char n] else str_nat (n div 10) @ [digit_char (n mod 10)])"

declare str_nat.simps [simp del]

definition format_05d :: "nat \<Rightarrow> string" where
  "format_05d n = replicate (5 - length (str_nat n)) (CHR ''0'') @ str_nat n"

text \<open>
  \<open>re_sub_ext ext repl s\<close> is \<^verbatim>\<open>re.sub(r'\.pid$', repl, s)\<close> with \<open>ext\<close> the text
  \<^verbatim>\<open>.pid\<close> (and the same for \<^verbatim>\<open>.state\<close>). The pattern matches the text at the end
  of the string, or just before a line feed that ends the string (\<^verbatim>\<open>$\<close> matches there
  too); a string with no match is returned unchanged.
\<close>

definition endswith :: "string \<Rightarrow> string \<Rightarrow> bool" where
  "endswith s suffix =
     (length suffix \<le> length s \<and> drop (length s - length suffix) s = suffix)"

definition re_sub_ext :: "string \<Rightarrow> string \<Rightarrow> string \<Rightarrow> string" where
  "re_sub_ext ext repl s =
     (if endswith s ext then take (length s - length ext) s @ repl
      else if endswith s (ext @ [CHR 0x0A])
        then take (length s - length ext - 1) s @ repl @ [CHR 0x0A]
      else s)"

text \<open>
  \<^verbatim>\<open>_get_fn_pidfile\<close> and \<^verbatim>\<open>_get_fn_state\<close>. The configuration values
  \<^verbatim>\<open>self.c('paralel')\<close>, \<^verbatim>\<open>self.c('pid_file')\<close>, \<^verbatim>\<open>self.c('state_file')\<close> and the
  result of \<^verbatim>\<open>os.getpid()\<close> are parameters.
\<close>

definition get_fn_pidfile :: "bool \<Rightarrow> string \<Rightarrow> nat \<Rightarrow> string" where
  "get_fn_pidfile paralel pid_file pid =
     (if \<not> paralel then pid_file
      else re_sub_ext ''.pid'' (''.'' @ format_05d pid @ ''.pid'') pid_file)"

definition get_fn_state :: "bool \<Rightarrow> string \<Rightarrow> nat \<Rightarrow> string" where
  "get_fn_state paralel state_file pid =
     (if \<not> paralel then state_file
      else re_sub_ext ''.state'' (''.'' @ format_05d pid @ ''.state'') state_file)"

text \<open>
  \<^verbatim>\<open>_pidfiles_list\<close>. \<open>os_path_join\<close> is \<^verbatim>\<open>os.path.join\<close> on two POSIX paths and
  \<open>py_sorted\<close> is \<^verbatim>\<open>sorted(xs, reverse = reverse)\<close> on strings. What
  \<^verbatim>\<open>glob.glob\<close> finds in the file system for a pattern is the parameter \<open>glob_glob\<close>.
\<close>

definition os_path_join :: "string \<Rightarrow> string \<Rightarrow> string" where
  "os_path_join a b =
     (if b \<noteq> [] \<and> hd b = CHR ''/'' then b
      else if a = [] \<or> last a = CHR ''/'' then a @ b
      else a @ ''/'' @ b)"

definition py_sorted :: "string list \<Rightarrow> bool \<Rightarrow> string list" where
  "py_sorted xs reverse = (if reverse then rev (sort (rev xs)) else sort xs)"

definition pidfiles_list ::
  "(string \<Rightarrow> string list) \<Rightarrow> string \<Rightarrow> string \<Rightarrow> bool \<Rightarrow> string list" where
  "pidfiles_list glob_glob paths_run name reverse =
     (let pfn = os_path_join paths_run (name @ ''*.pid'')
      in py_sorted (glob_glob pfn) reverse)"

text \<open>The number that a string of decimal digits denotes.\<close>

definition decimal_value :: "string \<Rightarrow> nat" where
  "decimal_value s = foldl (\<lambda>acc c. 10 * acc + (of_char c - 48)) 0 s"

subsection \<open>ZenDaemon: the callback registry and the event loop\<close>

text \<open>
  A handler is identified by a number. The registry \<^verbatim>\<open>self.callbacks\<close> is a dictionary
  from event names to Python lists of handlers. A list is a mutable object that
  \<^verbatim>\<open>append\<close> and \<^verbatim>\<open>insert\<close> change in place and that the loop iterates while
  handlers run, so lists live in a store: \<open>callbacks\<close> maps an event name to a reference,
  and \<open>lists\<close> maps a reference to the current contents of that list object; \<open>next_ref\<close>
  is the next unused reference. \<open>logger\<close> holds the records logged so far and
  \<open>time_reads\<close> counts the calls of \<^verbatim>\<open>time.time()\<close>. \<open>world\<close> is everything else a
  handler can change (the state of the components).
\<close>

record ('a, 'w) ZenDaemon =
  flag_done :: bool
  queue :: "'a EventQueueManager"
  callbacks :: "string \<rightharpoonup> nat"
  lists :: "nat \<Rightarrow> nat list"
  next_ref :: nat
  logger :: "(string \<times> string) list"
  time_reads :: nat
  world :: 'w

definition FLAG_CONTINUE :: int where
  "FLAG_CONTINUE = 1"

definition FLAG_STOP :: int where
  "FLAG_STOP = 0"

text \<open>
  What a call \<^verbatim>\<open>handler(self, args)\<close> does: it returns \<^verbatim>\<open>(flag, args)\<close> or raises,
  and leaves the daemon in a new state.
\<close>

datatype ('a, 'd) hres = Returned int "'a option" 'd | Raised exn 'd

text \<open>
  The environment of the loop: what each handler does, what the \<open>n\<close>-th call of
  \<^verbatim>\<open>time.time()\<close> returns, what Python's \<^verbatim>\<open>-\<close> on two floats returns
  (\<open>float_sub\<close>), and what happens while the process sleeps in \<^verbatim>\<open>signal.pause()\<close> with
  an alarm set for the given number of seconds (signal handlers run and may schedule events;
  an interrupt raises \<^verbatim>\<open>KeyboardInterrupt\<close>).
\<close>

record ('a, 'w) env =
  handler :: "nat \<Rightarrow> ('a, 'w) ZenDaemon \<Rightarrow> 'a option \<Rightarrow> ('a, ('a, 'w) ZenDaemon) hres"
  clock :: "nat \<Rightarrow> rat"
  float_sub :: "rat \<Rightarrow> rat \<Rightarrow> rat"
  pause :: "nat \<Rightarrow> ('a, 'w) ZenDaemon \<Rightarrow> exn + ('a, 'w) ZenDaemon"

definition time_time :: "('a, 'w) env \<Rightarrow> ('a, 'w) ZenDaemon \<Rightarrow> rat \<times> ('a, 'w) ZenDaemon" where
  "time_time env d = (clock env (time_reads d), d\<lparr>time_reads := Suc (time_reads d)\<rparr>)"

definition logger_info :: "('a, 'w) ZenDaemon \<Rightarrow> string \<Rightarrow> ('a, 'w) ZenDaemon" where
  "logger_info d msg = d\<lparr>logger := logger d @ [(''INFO'', msg)]\<rparr>"

text \<open>\<^verbatim>\<open>_init_event_callback(event, callback, prepend)\<close>.\<close>

definition init_event_callback ::
  "('a, 'w) ZenDaemon \<Rightarrow> string \<Rightarrow> nat \<Rightarrow> bool \<Rightarrow> ('a, 'w) ZenDaemon" where
  "init_event_callback d event callback prepend =
     (let d1 = (if callbacks d event = None
                then d\<lparr>callbacks := (callbacks d)(event \<mapsto> next_ref d),
                       lists := (lists d)(next_ref d := []),
                       next_ref := Suc (next_ref d)\<rparr>
                else d)
      in case callbacks d1 event of
           Some r \<Rightarrow>
             if \<not> prepend then d1\<lparr>lists := (lists d1)(r := lists d1 r @ [callback])\<rparr>
             else d1\<lparr>lists := (lists d1)(r := callback # lists d1 r)\<rparr>
         | None \<Rightarrow> d1)"

text \<open>
  \<^verbatim>\<open>ZenDaemon.wait(period)\<close> and \<^verbatim>\<open>ZenDaemon.done()\<close>.
\<close>

definition ZenDaemon_wait ::
  "('a, 'w) env \<Rightarrow> rat \<Rightarrow> ('a, 'w) ZenDaemon \<Rightarrow> exn + ('a, 'w) ZenDaemon" where
  "ZenDaemon_wait env period d =
     (let period = ceiling period in
      if period > 0 then
        pause env (nat period)
          (logger_info d (''Waiting for '' @ [CHR 0x27] @ str_nat (nat period) @ [CHR 0x27]
                          @ '' seconds until next scheduled event''))
      else Inr d)"

definition ZenDaemon_done :: "('a, 'w) ZenDaemon \<Rightarrow> ('a, 'w) ZenDaemon" where
  "ZenDaemon_done d = d\<lparr>flag_done := True\<rparr>"

text \<open>
  How a block of the loop ends: normally, or with an exception on its way out; both with the
  state of the daemon at that point. With it comes the list of the handler calls made, each
  with the \<^verbatim>\<open>args\<close> it received.
\<close>

datatype 'd outcome = Normal 'd | Exception exn 'd

type_synonym 'a calls = "(nat \<times> 'a option) list"

text \<open>
  \<^verbatim>\<open>for handler in self.callbacks[event]\<close>: the list object \<open>ref\<close> is fixed when the
  loop starts, and the list iterator reads the list anew at each step, at its index \<open>i\<close>.
  A handler can lengthen the list it is called from for ever, so the loop need not end; then
  the result is \<open>None\<close>.
\<close>

partial_function (option) run_handlers ::
  "('a, 'w) env \<Rightarrow> nat \<Rightarrow> nat \<Rightarrow> 'a option \<Rightarrow> ('a, 'w) ZenDaemon \<Rightarrow> 'a calls \<Rightarrow>
   (('a, 'w) ZenDaemon outcome \<times> 'a calls) option" where
  "run_handlers env ref i args d calls =
     (if i < length (lists d ref) then
        (let h = lists d ref ! i; calls1 = calls @ [(h, args)] in
         case handler env h d args of
           Raised e d1 \<Rightarrow> Some (Exception e d1, calls1)
         | Returned flag args1 d1 \<Rightarrow>
             if flag \<noteq> FLAG_CONTINUE then Some (Normal d1, calls1)
             else run_handlers env ref (Suc i) args1 d1 calls1)
      else Some (Normal d, calls))"

text \<open>
  \<^verbatim>\<open>self.queue.next()\<close> and \<^verbatim>\<open>self.queue.wait()\<close> on the daemon's queue; the clock is
  read where the method reads it.
\<close>

definition daemon_queue_next ::
  "('a, 'w) env \<Rightarrow> ('a, 'w) ZenDaemon \<Rightarrow>
   (exn + ((string option \<times> 'a option) \<times> 'a EventQueueManager)) \<times> ('a, 'w) ZenDaemon" where
  "daemon_queue_next env d =
     (if events_at (queue d) = [] then (queue_next (queue d) 0, d)
      else (let (now, d1) = time_time env d in (queue_next (queue d) now, d1)))"

definition daemon_queue_wait ::
  "('a, 'w) env \<Rightarrow> ('a, 'w) ZenDaemon \<Rightarrow> (exn + rat) \<times> ('a, 'w) ZenDaemon" where
  "daemon_queue_wait env d =
     (if events (queue d) \<noteq> [] \<or> events_at (queue d) = []
      then (queue_wait (float_sub env) (queue d) 0, d)
      else (let (now, d1) = time_time env d in (queue_wait (float_sub env) (queue d) now, d1)))"

text \<open>The body of the \<^verbatim>\<open>try\<close> block of \<^verbatim>\<open>_event_loop\<close>.\<close>

definition event_loop_try ::
  "('a, 'w) env \<Rightarrow> ('a, 'w) ZenDaemon \<Rightarrow> (('a, 'w) ZenDaemon outcome \<times> 'a calls) option" where
  "event_loop_try env d =
     (case daemon_queue_next env d of
        (Inl e, d1) \<Rightarrow> Some (Exception e d1, [])
      | (Inr ((event, args), q), d1) \<Rightarrow>
          (let d2 = d1\<lparr>queue := q\<rparr> in
           if event \<noteq> None \<and> event \<noteq> Some [] then
             (case callbacks d2 (the event) of
                None \<Rightarrow>
                  Some (Exception (ZenDaemonException
                          (''There is no callback to handle event '' @ [CHR 0x27] @ the event
                           @ [CHR 0x27])) d2, [])
              | Some ref \<Rightarrow> run_handlers env ref 0 args d2 [])
           else
             (case daemon_queue_wait env d2 of
                (Inl e, d3) \<Rightarrow> Some (Exception e d3, [])
              | (Inr wait_time, d3) \<Rightarrow>
                  if wait_time > 0 then
                    (case ZenDaemon_wait env wait_time d3 of
                       Inl e \<Rightarrow> Some (Exception e d3, [])
                     | Inr d4 \<Rightarrow> Some (Normal d4, []))
                  else Some (Normal d3, []))))"

text \<open>One iteration of the \<^verbatim>\<open>while\<close> loop: the \<^verbatim>\<open>try\<close> block and its handler.\<close>

definition event_loop_body ::
  "('a, 'w) env \<Rightarrow> ('a, 'w) ZenDaemon \<Rightarrow> (('a, 'w) ZenDaemon outcome \<times> 'a calls) option" where
  "event_loop_body env d =
     (case event_loop_try env d of
        None \<Rightarrow> None
      | Some (Exception (QueueEmptyException m) d1, calls) \<Rightarrow>
          Some (Normal ((logger_info d1 ''Event queue is empty, terminating'')\<lparr>flag_done := True\<rparr>),
                calls)
      | Some r \<Rightarrow> Some r)"

partial_function (option) event_loop_while ::
  "('a, 'w) env \<Rightarrow> ('a, 'w) ZenDaemon \<Rightarrow> 'a calls \<Rightarrow>
   (('a, 'w) ZenDaemon outcome \<times> 'a calls) option" where
  "event_loop_while env d calls =
     (if \<not> flag_done d then
        (case event_loop_body env d of
           None \<Rightarrow> None
         | Some (Exception e d1, calls1) \<Rightarrow> Some (Exception e d1, calls @ calls1)
         | Some (Normal d1, calls1) \<Rightarrow> event_loop_while env d1 (calls @ calls1))
      else Some (Normal d, calls))"

definition event_loop ::
  "('a, 'w) env \<Rightarrow> ('a, 'w) ZenDaemon \<Rightarrow> (('a, 'w) ZenDaemon outcome \<times> 'a calls) option" where
  "event_loop env d = event_loop_while env (d\<lparr>flag_done := False\<rparr>) []"

text \<open>
  The handler chain as the specification describes it, over a fixed list of handlers: they
  are invoked in order, each returns \<^verbatim>\<open>(flag, args')\<close>, the next one receives
  \<^verbatim>\<open>args'\<close>, and the handlers after one that does not return \<^verbatim>\<open>FLAG_CONTINUE\<close> are
  skipped.
\<close>

fun spec_chain ::
  "('a, 'w) env \<Rightarrow> nat list \<Rightarrow> 'a option \<Rightarrow> ('a, 'w) ZenDaemon \<Rightarrow>
   ('a, 'w) ZenDaemon outcome \<times> 'a calls" where
  "spec_chain env [] args d = (Normal d, [])"
| "spec_chain env (h # hs) args d =
     (case handler env h d args of
        Raised e d1 \<Rightarrow> (Exception e d1, [(h, args)])
      | Returned flag args1 d1 \<Rightarrow>
          if flag = FLAG_CONTINUE then
            (case spec_chain env hs args1 d1 of (out, calls) \<Rightarrow> (out, (h, args) # calls))
          else (Normal d1, [(h, args)]))"

text \<open>The state a handler call leaves, and the exception an outcome carries.\<close>

fun hres_state :: "('a, 'd) hres \<Rightarrow> 'd" where
  "hres_state (Returned flag args d) = d"
| "hres_state (Raised e d) = d"

fun outcome_exn :: "'d outcome \<Rightarrow> exn option" where
  "outcome_exn (Normal d) = None"
| "outcome_exn (Exception e d) = Some e"

fun outcome_state :: "'d outcome \<Rightarrow> 'd" where
  "outcome_state (Normal d) = d"
| "outcome_state (Exception e d) = d"

text \<open>
  Concrete daemons for the examples. \<open>empty_daemon\<close> has an empty queue and an empty
  registry. In \<open>chain_env\<close> handler 0 returns \<^verbatim>\<open>(FLAG_CONTINUE, 1)\<close>, handler 1 returns
  \<^verbatim>\<open>(FLAG_STOP, 2)\<close> and every other handler returns \<^verbatim>\<open>(FLAG_CONTINUE, 3)\<close>; none of
  them changes the daemon. In \<open>registering_env\<close> handler 0 registers handler 1 for the
  event \<^verbatim>\<open>e\<close> with \<^verbatim>\<open>_init_event_callback('e', 1)\<close>, unless it is registered for
  that event already (\<open>is_registered\<close>), and returns \<^verbatim>\<open>(FLAG_CONTINUE, args)\<close>, as the
  other handlers do without changing anything.
\<close>

definition is_registered :: "('a, 'w) ZenDaemon \<Rightarrow> string \<Rightarrow> nat \<Rightarrow> bool" where
  "is_registered d event h =
     (case callbacks d event of None \<Rightarrow> False | Some r \<Rightarrow> h \<in> set (lists d r))"

definition empty_daemon :: "(nat, unit) ZenDaemon" where
  "empty_daemon =
     \<lparr>flag_done = False, queue = init_queue, callbacks = Map.empty, lists = (\<lambda>r. []),
      next_ref = 0, logger = [], time_reads = 0, world = ()\<rparr>"

definition chain_env :: "(nat, unit) env" where
  "chain_env =
     \<lparr>handler = (\<lambda>h d args.
         if h = 0 then Returned FLAG_CONTINUE (Some 1) d
         else if h = 1 then Returned FLAG_STOP (Some 2) d
         else Returned FLAG_CONTINUE (Some 3) d),
      clock = (\<lambda>n. 0),
      float_sub = (\<lambda>x y. x - y),
      pause = (\<lambda>period d. Inr d)\<rparr>"

definition registering_env :: "(nat, unit) env" where
  "registering_env =
     \<lparr>handler = (\<lambda>h d args.
         if h = 0 \<and> \<not> is_registered d ''e'' 1
         then Returned FLAG_CONTINUE args (init_event_callback d ''e'' 1 False)
         else Returned FLAG_CONTINUE args d),
      clock = (\<lambda>n. 0),
      float_sub = (\<lambda>x y. x - y),
      pause = (\<lambda>period d. Inr d)\<rparr>"

text \<open>
  \<^verbatim>\<open>self.queue.schedule(event, args)\<close> on the daemon's queue, and what a run of the
  loop raised and which handler calls it made.
\<close>

definition daemon_schedule ::
  "('a, 'w) ZenDaemon \<Rightarrow> string \<Rightarrow> 'a option \<Rightarrow> ('a, 'w) ZenDaemon" where
  "daemon_schedule d event args = d\<lparr>queue := schedule (queue d) event args\<rparr>"

definition raised :: "('d outcome \<times> 'c) option \<Rightarrow> exn option" where
  "raised r = (case r of Some (out, c) \<Rightarrow> outcome_exn out | None \<Rightarrow> None)"

definition calls_made :: "('d outcome \<times> 'c list) option \<Rightarrow> 'c list" where
  "calls_made r = (case r of Some (out, c) \<Rightarrow> c | None \<Rightarrow> [])"

section \<open>Properties\<close>

subsection \<open>The event queue\<close>







lemma heap_invariant_iff:
  "heap_invariant h \<longleftrightarrow> (\<forall>c. 0 < c \<and> c < length h \<longrightarrow> key_le (h ! ((c - 1) div 2)) (h ! c))"
  by (auto simp add: heap_invariant_def list_all_iff)

lemma key_le_refl: "key_le x x"
  by (simp add: key_le_def)

lemma key_le_trans: "key_le x y \<Longrightarrow> key_le y z \<Longrightarrow> key_le x z"
  by (auto simp add: key_le_def)



lemma heap_root_least:
  assumes "heap_invariant h"
  shows "i < length h \<Longrightarrow> key_le (h ! 0) (h ! i)"
proof (induction i rule: less_induct)
  case (less i)
  show ?case
  proof (cases "i = 0")
    case True
    then show ?thesis by (simp add: key_le_refl)
  next
    case False
    then have p: "(i - 1) div 2 < i" by simp
    have "key_le (h ! 0) (h ! ((i - 1) div 2))" using less.IH [OF p] p less.prems by simp
    moreover have "key_le (h ! ((i - 1) div 2)) (h ! i)"
      using assms False less.prems by (simp add: heap_invariant_iff)
    ultimately show ?thesis by (rule key_le_trans)
  qed
qed











lemma heap_root_due:
  assumes "heap_invariant heap"
  shows "(\<exists>y\<in>set heap. fst y \<le> now) \<longleftrightarrow> heap \<noteq> [] \<and> fst (heap ! 0) \<le> now"
proof
  assume "\<exists>y\<in>set heap. fst y \<le> now"
  then obtain y where y: "y \<in> set heap" "fst y \<le> now" by blast
  then obtain i where i: "i < length heap" and yi: "heap ! i = y" by (metis in_set_conv_nth)
  have "key_le (heap ! 0) (heap ! i)" using assms i by (rule heap_root_least)
  then have "fst (heap ! 0) \<le> fst y" unfolding yi by (auto simp add: key_le_def)
  then show "heap \<noteq> [] \<and> fst (heap ! 0) \<le> now" using y by auto
next
  assume a: "heap \<noteq> [] \<and> fst (heap ! 0) \<le> now"
  then have "heap ! 0 \<in> set heap" by simp
  then show "\<exists>y\<in>set heap. fst y \<le> now" using a by blast
qed




text \<open>
  C1. \<^verbatim>\<open>next()\<close> is claimed to pop and return the heap root whenever the root is due, on
  every queue state. On the queue reached by \<^verbatim>\<open>schedule_at(5, 'x', d1)\<close>,
  \<^verbatim>\<open>schedule_at(1, 'a')\<close>, \<^verbatim>\<open>schedule_at(5, 'x', d2)\<close> with two different dictionaries
  (here \<open>Some 1\<close> and \<open>Some 2\<close>) the root \<^verbatim>\<open>(1, 'a', None)\<close> is due at time 1, and
  \<^verbatim>\<open>next()\<close> raises \<^verbatim>\<open>TypeError\<close>: \<^verbatim>\<open>heappop\<close> compares the two remaining tuples,
  which agree on time and name, and so compares the dictionaries.
\<close>

theorem queue_next_due_root_raises_TypeError:
  "schedule_at (init_queue :: nat EventQueueManager) 5 ''x'' (Some 1)
     = Inr \<lparr>events = [], events_at = [(5, ''x'', Some 1)]\<rparr>
   \<and> schedule_at \<lparr>events = [], events_at = [(5, ''x'', Some (1::nat))]\<rparr> 1 ''a'' None
     = Inr \<lparr>events = [], events_at = [(1, ''a'', None), (5, ''x'', Some 1)]\<rparr>
   \<and> schedule_at \<lparr>events = [], events_at = [(1, ''a'', None), (5, ''x'', Some (1::nat))]\<rparr>
        5 ''x'' (Some 2)
     = Inr \<lparr>events = [], events_at = [(1, ''a'', None), (5, ''x'', Some 1), (5, ''x'', Some 2)]\<rparr>
   \<and> queue_next \<lparr>events = [],
                  events_at = [(1, ''a'', None), (5, ''x'', Some (1::nat)), (5, ''x'', Some 2)]\<rparr> 1
     = Inl TypeError"
  by (simp add: init_queue_def schedule_at_def heappush_def queue_next_def heappop_def
                siftup_def siftdown_def siftup_loop.simps siftdown_loop.simps)

lemma schedule_all_events: "events (schedule_all q es) = events q @ es"
  by (induction q es rule: schedule_all.induct) (simp_all add: schedule_def)

lemma schedule_all_events_at: "events_at (schedule_all q es) = events_at q"
  by (induction q es rule: schedule_all.induct) (simp_all add: schedule_def)

lemma schedule_all_reset: "(schedule_all q es)\<lparr>events := xs\<rparr> = q\<lparr>events := xs\<rparr>"
  by (induction q es rule: schedule_all.induct) (simp_all add: schedule_def)

lemma queue_next_fifo:
  "events_at q = [] \<Longrightarrow> events q = ea # rest \<Longrightarrow>
   queue_next q now = Inr (returned ea, q\<lparr>events := rest\<rparr>)"
  by (cases ea) (simp add: queue_next_def returned_def)

lemma next_calls_fifo:
  "events_at q = [] \<Longrightarrow> length nows = length (events q) \<Longrightarrow>
   next_calls q nows = Inr (map returned (events q), q\<lparr>events := []\<rparr>)"
proof (induction nows arbitrary: q)
  case Nil
  then show ?case by simp
next
  case (Cons now nows)
  then obtain ea rest where ev: "events q = ea # rest"
    by (cases "events q") auto
  have step: "queue_next q now = Inr (returned ea, q\<lparr>events := rest\<rparr>)"
    using Cons.prems(1) ev by (rule queue_next_fifo)
  have "next_calls (q\<lparr>events := rest\<rparr>) nows =
        Inr (map returned (events (q\<lparr>events := rest\<rparr>)), q\<lparr>events := rest\<rparr>\<lparr>events := []\<rparr>)"
    using Cons.prems ev by (intro Cons.IH) simp_all
  then show ?case using step ev by simp
qed

text \<open>
  C2 fails as stated, in its second half: \<^verbatim>\<open>next()\<close> looks at the timed entries first.
  After \<^verbatim>\<open>schedule('a')\<close> and \<^verbatim>\<open>schedule_at(1, 't')\<close> the FIFO is not empty, and the
  \<^verbatim>\<open>next()\<close> at time 2 that follows \<^verbatim>\<open>schedule_next('hup')\<close> returns the due timed
  entry \<^verbatim>\<open>'t'\<close>, not \<^verbatim>\<open>'hup'\<close>.
\<close>

theorem schedule_next_yields_to_due_timed_entry:
  "schedule_at (schedule (init_queue :: nat EventQueueManager) ''a'' None) 1 ''t'' None
     = Inr \<lparr>events = [(''a'', None)], events_at = [(1, ''t'', None)]\<rparr>
   \<and> queue_next (schedule_next \<lparr>events = [(''a'', None)],
                                  events_at = [(1, ''t'', None :: nat option)]\<rparr> ''hup'' None) 2
     = Inr ((Some ''t'', None), \<lparr>events = [(''hup'', None), (''a'', None)], events_at = []\<rparr>)"
  by (simp add: init_queue_def schedule_def schedule_next_def schedule_at_def heappush_def
                queue_next_def heappop_def siftdown_def siftdown_loop.simps)

text \<open>
  C2, amended. With no timed entries, after \<^verbatim>\<open>schedule(e1), ..., schedule(en)\<close>
  successive calls of \<^verbatim>\<open>next()\<close> return \<open>e1, ..., en\<close> in that order, after the
  entries that the FIFO held before, if any, and leave the FIFO empty. And when no timed entry
  is due (there is none, or the heap root is later than the clock; in a heap, when every
  timed entry is later than the clock), the \<^verbatim>\<open>next()\<close> that follows
  \<^verbatim>\<open>schedule_next(e)\<close> returns \<open>e\<close>, whatever the FIFO held.
\<close>

theorem fifo_ordering_and_front_insertion:
  "(events_at q = [] \<and> length nows = length (events q) + length es \<longrightarrow>
      next_calls (schedule_all q es) nows
        = Inr (map returned (events q @ es), q\<lparr>events := []\<rparr>))
   \<and> (events_at q = [] \<and> events q = [] \<and> length nows = length es \<longrightarrow>
      next_calls (schedule_all q es) nows = Inr (map returned es, q))
   \<and> (events_at q = [] \<or> now < fst (events_at q ! 0) \<longrightarrow>
      queue_next (schedule_next q event args) now = Inr ((Some event, args), q))
   \<and> (heap_invariant (events_at q) \<and> (\<forall>y\<in>set (events_at q). now < fst y) \<longrightarrow>
      queue_next (schedule_next q event args) now = Inr ((Some event, args), q))"
proof -
  have fifo: "next_calls (schedule_all q es) nows
        = Inr (map returned (events q @ es), q\<lparr>events := []\<rparr>)"
    if a: "events_at q = [] \<and> length nows = length (events q) + length es"
  proof -
    have "next_calls (schedule_all q es) nows =
        Inr (map returned (events (schedule_all q es)), (schedule_all q es)\<lparr>events := []\<rparr>)"
      using a by (intro next_calls_fifo) (simp_all add: schedule_all_events schedule_all_events_at)
    moreover have "(schedule_all q es)\<lparr>events := []\<rparr> = q\<lparr>events := []\<rparr>"
      by (rule schedule_all_reset)
    ultimately show ?thesis by (simp add: schedule_all_events)
  qed
  have fifo0: "next_calls (schedule_all q es) nows = Inr (map returned es, q)"
    if b: "events_at q = [] \<and> events q = [] \<and> length nows = length es"
  proof -
    have "q\<lparr>events := []\<rparr> = q" using b by (cases q) simp
    moreover have "events_at q = [] \<and> length nows = length (events q) + length es"
      using b by simp
    ultimately show ?thesis using fifo b by simp
  qed
  have front: "queue_next (schedule_next q event args) now = Inr ((Some event, args), q)"
    if "events_at q = [] \<or> now < fst (events_at q ! 0)"
    using that by (auto simp add: queue_next_def schedule_next_def)
  have front2: "queue_next (schedule_next q event args) now = Inr ((Some event, args), q)"
    if c: "heap_invariant (events_at q) \<and> (\<forall>y\<in>set (events_at q). now < fst y)"
  proof -
    have "\<not> (\<exists>y\<in>set (events_at q). fst y \<le> now)" using c by auto
    then have "\<not> (events_at q \<noteq> [] \<and> fst (events_at q ! 0) \<le> now)"
      using heap_root_due [of "events_at q" now] c by blast
    then have "events_at q = [] \<or> now < fst (events_at q ! 0)" by auto
    then show ?thesis by (rule front)
  qed
  show ?thesis
    apply (intro conjI impI)
       apply (erule fifo)
      apply (erule fifo0)
     apply (erule front)
    apply (erule front2)
    done
qed

theorem fifo_ordering_and_front_insertion_witness:
  "next_calls (schedule_all (init_queue :: nat EventQueueManager)
                 [(''a'', None), (''b'', Some 7), (''c'', None)]) [3, 1, 2]
     = Inr ([(Some ''a'', None), (Some ''b'', Some 7), (Some ''c'', None)], init_queue)
   \<and> queue_next (schedule_next \<lparr>events = [(''a'', None)], events_at = [(9, ''t'', None)]\<rparr>
                    ''hup'' (None :: nat option)) 4
     = Inr ((Some ''hup'', None), \<lparr>events = [(''a'', None)], events_at = [(9, ''t'', None)]\<rparr>)
   \<and> next_calls (schedule_all \<lparr>events = [(''z'', None :: nat option)], events_at = []\<rparr>
                  [(''a'', None), (''b'', Some 7)]) [3, 1, 2]
     = Inr ([(Some ''z'', None), (Some ''a'', None), (Some ''b'', Some 7)],
            \<lparr>events = [], events_at = []\<rparr>)
   \<and> heap_invariant [(9 :: rat, ''t'', None :: nat option)]"
  using fifo_ordering_and_front_insertion
          [of "init_queue :: nat EventQueueManager" "[3, 1, 2]"
              "[(''a'', None), (''b'', Some 7), (''c'', None)]"]
        fifo_ordering_and_front_insertion
          [of "\<lparr>events = [(''a'', None)], events_at = [(9, ''t'', None :: nat option)]\<rparr>"
              "[]" "[]" 4 "''hup''" None]
        fifo_ordering_and_front_insertion
          [of "\<lparr>events = [(''z'', None :: nat option)], events_at = []\<rparr>" "[3, 1, 2]"
              "[(''a'', None), (''b'', Some 7)]"]
  by (simp add: init_queue_def returned_def heap_invariant_def)





subsection \<open>Statistics\<close>

lemma leaf_record_eq:
  "py_get p k (Num (num_zero ar)) = Inr (Num a) \<Longrightarrow>
   leaf_record ar b p k tdiff =
     and_then (num_sub ar b a) (\<lambda>i.
     and_then (num_truediv ar i tdiff) (\<lambda>s.
     and_then (num_truediv ar b (num_hundred ar)) (\<lambda>h.
     and_then (num_truediv ar i h) (\<lambda>q.
     Inr \<lparr>cnt = b, inc = i, spd = s, pct = q\<rparr>))))"
  by (simp add: leaf_record_def and_then_def Let_def split: sum.splits)

lemma leaf_record_Inr:
  assumes "leaf_record ar b p k tdiff = Inr r"
  shows "\<exists>a i s h q. py_get p k (Num (num_zero ar)) = Inr (Num a) \<and> num_sub ar b a = Inr i
           \<and> num_truediv ar i tdiff = Inr s \<and> num_truediv ar b (num_hundred ar) = Inr h
           \<and> num_truediv ar i h = Inr q \<and> r = \<lparr>cnt = b, inc = i, spd = s, pct = q\<rparr>"
proof (cases "py_get p k (Num (num_zero ar))")
  case (Inl e)
  then show ?thesis using assms by (simp add: leaf_record_def and_then_def)
next
  case (Inr v)
  show ?thesis
  proof (cases v)
    case (Dict d)
    then show ?thesis using assms Inr by (simp add: leaf_record_def and_then_def)
  next
    case (Num a)
    then have g: "py_get p k (Num (num_zero ar)) = Inr (Num a)" using Inr by simp
    show ?thesis using assms unfolding leaf_record_eq [OF g]
      by (auto simp add: and_then_def g split: sum.splits)
  qed
qed

lemma calc_statistics_map_of_Num:
  "map_of cur k = Some (Num b) \<Longrightarrow> calc_statistics ar cur prev tdiff = Inr res \<Longrightarrow>
   \<exists>r. leaf_record ar b prev k tdiff = Inr r \<and> map_of res k = Some (Leaf r)"
proof (induction ar cur prev tdiff arbitrary: res rule: calc_statistics.induct)
  case (1 ar stats_prev tdiff)
  then show ?case by simp
next
  case (2 ar key sub rest stats_prev tdiff)
  from "2.prems"(2) obtain p r result where
    g: "py_get stats_prev key (Dict []) = Inr p" and s: "calc_statistics ar sub p tdiff = Inr r"
    and rest: "calc_statistics ar rest stats_prev tdiff = Inr result"
    and res: "res = (key, Node r) # result"
    by (auto split: sum.splits)
  have ne: "k \<noteq> key" using "2.prems"(1) by (auto split: if_splits)
  then have "map_of rest k = Some (Num b)" using "2.prems"(1) by simp
  then obtain r' where "leaf_record ar b stats_prev k tdiff = Inr r'" "map_of result k = Some (Leaf r')"
    using "2.IH"(2) g s rest by blast
  then show ?case using res ne by auto
next
  case (3 ar key c rest stats_prev tdiff)
  from "3.prems"(2) obtain r result where
    leaf: "leaf_record ar c stats_prev key tdiff = Inr r"
    and rest: "calc_statistics ar rest stats_prev tdiff = Inr result"
    and res: "res = (key, Leaf r) # result"
    by (auto split: sum.splits)
  show ?case
  proof (cases "k = key")
    case True
    then have "c = b" using "3.prems"(1) by simp
    then show ?thesis using True leaf res by auto
  next
    case False
    then have "map_of rest k = Some (Num b)" using "3.prems"(1) by simp
    then obtain r' where "leaf_record ar b stats_prev k tdiff = Inr r'" "map_of result k = Some (Leaf r')"
      using "3.IH" leaf rest by blast
    then show ?thesis using res False by auto
  qed
qed

lemma calc_statistics_map_of_Dict:
  "map_of cur k = Some (Dict sub) \<Longrightarrow> calc_statistics ar cur prev tdiff = Inr res \<Longrightarrow>
   \<exists>p r. py_get prev k (Dict []) = Inr p \<and> calc_statistics ar sub p tdiff = Inr r
        \<and> map_of res k = Some (Node r)"
proof (induction ar cur prev tdiff arbitrary: res rule: calc_statistics.induct)
  case (1 ar stats_prev tdiff)
  then show ?case by simp
next
  case (2 ar key s rest stats_prev tdiff)
  from "2.prems"(2) obtain p r result where
    g: "py_get stats_prev key (Dict []) = Inr p" and s: "calc_statistics ar s p tdiff = Inr r"
    and rest: "calc_statistics ar rest stats_prev tdiff = Inr result"
    and res: "res = (key, Node r) # result"
    by (auto split: sum.splits)
  show ?case
  proof (cases "k = key")
    case True
    then have "s = sub" using "2.prems"(1) by simp
    then show ?thesis using True g s res by auto
  next
    case False
    then have "map_of rest k = Some (Dict sub)" using "2.prems"(1) by simp
    then obtain p' r' where "py_get stats_prev k (Dict []) = Inr p'"
      "calc_statistics ar sub p' tdiff = Inr r'" "map_of result k = Some (Node r')"
      using "2.IH"(2) g s rest by blast
    then show ?thesis using res False by auto
  qed
next
  case (3 ar key c rest stats_prev tdiff)
  from "3.prems"(2) obtain r result where
    leaf: "leaf_record ar c stats_prev key tdiff = Inr r"
    and rest: "calc_statistics ar rest stats_prev tdiff = Inr result"
    and res: "res = (key, Leaf r) # result"
    by (auto split: sum.splits)
  have ne: "k \<noteq> key" using "3.prems"(1) by (auto split: if_splits)
  then have "map_of rest k = Some (Dict sub)" using "3.prems"(1) by simp
  then obtain p' r' where "py_get stats_prev k (Dict []) = Inr p'"
    "calc_statistics ar sub p' tdiff = Inr r'" "map_of result k = Some (Node r')"
    using "3.IH" leaf rest by blast
  then show ?case using res ne by auto
qed

lemma value_at_Num_snoc: "value_at (Num n) (ks @ [k]) = None"
  by (cases ks) simp_all

lemma calc_statistics_at:
  "calc_statistics ar cur prev tdiff = Inr res \<Longrightarrow>
   value_at (Dict cur) (ks @ [k]) = Some (Num b) \<Longrightarrow>
   \<exists>p r. prev_at prev ks = Inr p \<and> leaf_record ar b p k tdiff = Inr r
        \<and> result_at (Node res) (ks @ [k]) = Some (Leaf r)"
proof (induction ks arbitrary: cur prev res)
  case Nil
  then have m: "map_of cur k = Some (Num b)" by (simp split: option.splits)
  obtain r where "leaf_record ar b prev k tdiff = Inr r" "map_of res k = Some (Leaf r)"
    using calc_statistics_map_of_Num [OF m Nil.prems(1)] by auto
  then show ?case by simp
next
  case (Cons k1 ks)
  from Cons.prems(2) obtain v where v: "map_of cur k1 = Some v"
    and at: "value_at v (ks @ [k]) = Some (Num b)"
    by (auto split: option.splits)
  obtain sub where sub: "v = Dict sub" using at by (cases v) (auto simp add: value_at_Num_snoc)
  have v': "map_of cur k1 = Some (Dict sub)" using v sub by simp
  obtain p r where p: "py_get prev k1 (Dict []) = Inr p"
    and r: "calc_statistics ar sub p tdiff = Inr r" and m: "map_of res k1 = Some (Node r)"
    using calc_statistics_map_of_Dict [OF v' Cons.prems(1)] by auto
  have at': "value_at (Dict sub) (ks @ [k]) = Some (Num b)" using at sub by simp
  obtain p' r' where "prev_at p ks = Inr p'" "leaf_record ar b p' k tdiff = Inr r'"
    "result_at (Node r) (ks @ [k]) = Some (Leaf r')"
    using Cons.IH [OF r at'] by auto
  then show ?case using p m by (auto simp add: and_then_def)
qed



lemma calc_statistics_one_Num:
  "py_get prev key (Num (num_zero ar)) = Inr (Num a) \<Longrightarrow>
   calc_statistics ar [(key, Num b)] prev tdiff =
     and_then (num_sub ar b a) (\<lambda>i.
     and_then (num_truediv ar i tdiff) (\<lambda>s.
     and_then (num_truediv ar b (num_hundred ar)) (\<lambda>h.
     and_then (num_truediv ar i h) (\<lambda>q.
     Inr [(key, Leaf \<lparr>cnt = b, inc = i, spd = s, pct = q\<rparr>)]))))"
  by (simp add: leaf_record_eq and_then_def split: sum.splits)

lemma calc_statistics_one_Dict:
  "calc_statistics ar [(key, Dict sub)] prev tdiff =
     and_then (py_get prev key (Dict [])) (\<lambda>p.
     and_then (calc_statistics ar sub p tdiff) (\<lambda>r. Inr [(key, Node r)]))"
  by (simp add: and_then_def split: sum.splits)




lemma calc_statistics_empty_prev:
  "\<forall>x. num_sub ar x (num_zero ar) = Inr x \<Longrightarrow> prev = Dict [] \<Longrightarrow>
   calc_statistics ar cur prev tdiff = Inr res \<Longrightarrow>
   all_leaves (\<lambda>l. inc l = cnt l \<and> num_truediv ar (cnt l) tdiff = Inr (spd l)) res"
proof (induction ar cur prev tdiff arbitrary: res rule: calc_statistics.induct)
  case (1 ar stats_prev tdiff)
  then show ?case by auto
next
  case (2 ar key s rest stats_prev tdiff)
  from "2.prems" obtain r result where
    get: "py_get stats_prev key (Dict []) = Inr (Dict [])"
    and sub: "calc_statistics ar s (Dict []) tdiff = Inr r"
    and rest: "calc_statistics ar rest stats_prev tdiff = Inr result"
    and res: "res = (key, Node r) # result"
    by (auto split: sum.splits)
  have "all_leaves (\<lambda>l. inc l = cnt l \<and> num_truediv ar (cnt l) tdiff = Inr (spd l)) r"
    using "2.IH"(1) [OF get "2.prems"(1) refl sub] .
  moreover have "all_leaves (\<lambda>l. inc l = cnt l \<and> num_truediv ar (cnt l) tdiff = Inr (spd l)) result"
    using "2.IH"(2) get sub rest "2.prems"(1) "2.prems"(2) by blast
  ultimately show ?case using res by simp
next
  case (3 ar key c rest stats_prev tdiff)
  from "3.prems" obtain r result where
    leaf: "leaf_record ar c (Dict []) key tdiff = Inr r"
    and rest: "calc_statistics ar rest stats_prev tdiff = Inr result"
    and res: "res = (key, Leaf r) # result"
    by (auto split: sum.splits)
  have "inc r = cnt r \<and> num_truediv ar (cnt r) tdiff = Inr (spd r)"
    using leaf_record_Inr [OF leaf] "3.prems"(1) by auto
  moreover have "all_leaves (\<lambda>l. inc l = cnt l \<and> num_truediv ar (cnt l) tdiff = Inr (spd l)) result"
    using "3.IH" leaf rest "3.prems"(1) "3.prems"(2) by blast
  ultimately show ?case using res by simp
qed

text \<open>
  C10. Let subtracting the literal \<^verbatim>\<open>0\<close> return the number it is subtracted from, as
  Python's \<^verbatim>\<open>-\<close> does. For a counter with the current value \<open>b\<close> whose key is absent
  from the previous snapshot, the previous value is taken as \<^verbatim>\<open>0\<close>: the record has
  \<open>inc = cnt = b\<close> and \<open>spd = b / tdiff\<close> (and \<open>pct = b / (b / 100)\<close>), or the call raises
  what these divisions raise; this holds for the counter alone and, in every result that is
  returned, for a counter at any depth whose key is absent from the previous subtree that
  the recursion has reached. A nested dictionary under an absent key is computed against
  the empty dictionary, and in a result computed against the empty dictionary every record
  has \<open>inc = cnt\<close> and \<open>spd = cnt / tdiff\<close>.
\<close>

theorem calc_statistics_absent_key:
  assumes "\<forall>x. num_sub ar x (num_zero ar) = Inr x"
  shows "(map_of prev key = None \<longrightarrow>
            calc_statistics ar [(key, Num b)] (Dict prev) tdiff =
              and_then (num_truediv ar b tdiff) (\<lambda>s.
              and_then (num_truediv ar b (num_hundred ar)) (\<lambda>h.
              and_then (num_truediv ar b h) (\<lambda>q.
              Inr [(key, Leaf \<lparr>cnt = b, inc = b, spd = s, pct = q\<rparr>)]))))
       \<and> (calc_statistics ar cur prev0 tdiff = Inr res
            \<and> value_at (Dict cur) (ks @ [k]) = Some (Num b)
            \<and> prev_at prev0 ks = Inr (Dict p) \<and> map_of p k = None \<longrightarrow>
          (\<exists>r. result_at (Node res) (ks @ [k]) = Some (Leaf r) \<and> cnt r = b \<and> inc r = b
              \<and> num_truediv ar b tdiff = Inr (spd r)))
       \<and> (map_of prev key = None \<longrightarrow>
            calc_statistics ar [(key, Dict sub)] (Dict prev) tdiff =
              and_then (calc_statistics ar sub (Dict []) tdiff) (\<lambda>r. Inr [(key, Node r)]))
       \<and> (calc_statistics ar sub (Dict []) tdiff = Inr t \<longrightarrow>
            all_leaves (\<lambda>l. inc l = cnt l \<and> num_truediv ar (cnt l) tdiff = Inr (spd l)) t)"
proof -
  have one: "calc_statistics ar [(key, Num b)] (Dict prev) tdiff =
              and_then (num_truediv ar b tdiff) (\<lambda>s.
              and_then (num_truediv ar b (num_hundred ar)) (\<lambda>h.
              and_then (num_truediv ar b h) (\<lambda>q.
              Inr [(key, Leaf \<lparr>cnt = b, inc = b, spd = s, pct = q\<rparr>)])))"
    if "map_of prev key = None"
  proof -
    have "py_get (Dict prev) key (Num (num_zero ar)) = Inr (Num (num_zero ar))"
      using that by simp
    then show ?thesis
      using calc_statistics_one_Num [of "Dict prev" key ar "num_zero ar" b tdiff] assms
      by (simp add: and_then_def)
  qed
  have deep: "\<exists>r. result_at (Node res) (ks @ [k]) = Some (Leaf r) \<and> cnt r = b \<and> inc r = b
              \<and> num_truediv ar b tdiff = Inr (spd r)"
    if h: "calc_statistics ar cur prev0 tdiff = Inr res
            \<and> value_at (Dict cur) (ks @ [k]) = Some (Num b)
            \<and> prev_at prev0 ks = Inr (Dict p) \<and> map_of p k = None"
  proof -
    obtain p' r where p: "prev_at prev0 ks = Inr p'" and l: "leaf_record ar b p' k tdiff = Inr r"
      and at: "result_at (Node res) (ks @ [k]) = Some (Leaf r)"
      using calc_statistics_at [of ar cur prev0 tdiff res ks k b] h by auto
    have "p' = Dict p" using p h by simp
    then have "py_get p' k (Num (num_zero ar)) = Inr (Num (num_zero ar))" using h by simp
    then show ?thesis using leaf_record_Inr [OF l] at assms by auto
  qed
  have sub: "calc_statistics ar [(key, Dict sub)] (Dict prev) tdiff =
              and_then (calc_statistics ar sub (Dict []) tdiff) (\<lambda>r. Inr [(key, Node r)])"
    if "map_of prev key = None"
  proof -
    have "py_get (Dict prev) key (Dict []) = Inr (Dict [])" using that by simp
    then show ?thesis unfolding calc_statistics_one_Dict by (simp add: and_then_def)
  qed
  have leaves: "all_leaves (\<lambda>l. inc l = cnt l \<and> num_truediv ar (cnt l) tdiff = Inr (spd l)) t"
    if "calc_statistics ar sub (Dict []) tdiff = Inr t"
    using calc_statistics_empty_prev [OF assms refl that] .
  show ?thesis
    apply (intro conjI impI)
       apply (erule one)
      apply (erule deep)
     apply (erule sub)
    apply (erule leaves)
    done
qed

theorem calc_statistics_absent_key_witness:
  "calc_statistics exact_arith [(''n'', Num 200)] (Dict [(''a'', Num 100)]) 4
       = Inr [(''n'', Leaf \<lparr>cnt = 200, inc = 200, spd = 50, pct = 100\<rparr>)]
   \<and> calc_statistics exact_arith [(''n'', Dict [(''x'', Num 200), (''y'', Dict [(''z'', Num 400)])])]
        (Dict [(''a'', Num 100)]) 4
       = Inr [(''n'', Node [(''x'', Leaf \<lparr>cnt = 200, inc = 200, spd = 50, pct = 100\<rparr>),
                            (''y'', Node [(''z'', Leaf \<lparr>cnt = 400, inc = 400, spd = 100, pct = 100\<rparr>)])])]"
proof -
  have s0: "\<forall>x. num_sub exact_arith x (num_zero exact_arith) = Inr x"
    by (simp add: exact_arith_def)
  have m: "map_of [(''a'', Num (100 :: rat))] ''n'' = None" by simp
  have e1: "calc_statistics exact_arith [(''n'', Num 200)] (Dict [(''a'', Num 100)]) 4
       = Inr [(''n'', Leaf \<lparr>cnt = 200, inc = 200, spd = 50, pct = 100\<rparr>)]"
    using calc_statistics_absent_key [OF s0, of "[(''a'', Num 100)]" "''n''" 200 4] m
    by (simp add: and_then_def exact_arith_def)
  have e2: "calc_statistics exact_arith [(''x'', Num 200), (''y'', Dict [(''z'', Num 400)])]
              (Dict []) 4
            = Inr [(''x'', Leaf \<lparr>cnt = 200, inc = 200, spd = 50, pct = 100\<rparr>),
                   (''y'', Node [(''z'', Leaf \<lparr>cnt = 400, inc = 400, spd = 100, pct = 100\<rparr>)])]"
    by (simp add: leaf_record_def and_then_def exact_arith_def)
  have e3: "calc_statistics exact_arith
              [(''n'', Dict [(''x'', Num 200), (''y'', Dict [(''z'', Num 400)])])]
              (Dict [(''a'', Num 100)]) 4
         = and_then (calc_statistics exact_arith
                       [(''x'', Num 200), (''y'', Dict [(''z'', Num 400)])] (Dict []) 4)
                    (\<lambda>r. Inr [(''n'', Node r)])"
    using calc_statistics_absent_key [OF s0, of "[(''a'', Num 100)]" "''n''"] m by blast
  show ?thesis using e1 e3 unfolding e2 by (simp add: and_then_def)
qed

subsection \<open>Parallel-mode file names\<close>

lemma digit_char_value: "d < 10 \<Longrightarrow> of_char (digit_char d) = 48 + d"
proof -
  assume "d < 10"
  then have "d \<in> {0, 1, 2, 3, 4, 5, 6, 7, 8, 9}" by auto
  then show ?thesis unfolding digit_char_def by auto
qed

lemma decimal_value_snoc: "decimal_value (s @ [c]) = 10 * decimal_value s + (of_char c - 48)"
  by (simp add: decimal_value_def)

lemma decimal_value_str_nat: "decimal_value (str_nat n) = n"
proof (induction n rule: str_nat.induct)
  case (1 n)
  show ?case
  proof (cases "n < 10")
    case True
    then show ?thesis
      by (subst str_nat.simps) (simp add: decimal_value_def digit_char_value)
  next
    case False
    then have "decimal_value (str_nat (n div 10)) = n div 10" using 1 by simp
    then show ?thesis using False
      by (subst str_nat.simps) (simp add: decimal_value_snoc digit_char_value)
  qed
qed

lemma decimal_value_zeros: "decimal_value (replicate k (CHR ''0'') @ s) = decimal_value s"
  by (induction k) (simp_all add: decimal_value_def)

lemma decimal_value_format_05d: "decimal_value (format_05d n) = n"
  by (simp add: format_05d_def decimal_value_zeros decimal_value_str_nat)

lemma str_nat_length_pos: "1 \<le> length (str_nat n)"
  by (subst str_nat.simps) simp

lemma str_nat_length: "n < 10 ^ Suc k \<Longrightarrow> length (str_nat n) \<le> Suc k"
proof (induction k arbitrary: n)
  case 0
  then show ?case by (subst str_nat.simps) simp
next
  case (Suc k)
  show ?case
  proof (cases "n < 10")
    case True
    then show ?thesis by (subst str_nat.simps) simp
  next
    case False
    have "n div 10 < 10 ^ Suc k" using Suc.prems by (simp add: less_mult_imp_div_less)
    then have "length (str_nat (n div 10)) \<le> Suc k" by (rule Suc.IH)
    then show ?thesis using False by (subst str_nat.simps) simp
  qed
qed

lemma format_05d_length: "5 \<le> length (format_05d n) \<and> (n < 100000 \<longrightarrow> length (format_05d n) = 5)"
proof -
  have "n < 100000 \<Longrightarrow> length (str_nat n) \<le> 5"
    using str_nat_length [of n 4] by simp
  then show ?thesis by (auto simp add: format_05d_def)
qed

lemma endswith_append: "endswith (base @ ext) ext"
  by (simp add: endswith_def)

lemma re_sub_ext_match: "re_sub_ext ext repl (base @ ext) = base @ repl"
  by (simp add: re_sub_ext_def endswith_append)

lemma py_sorted_props:
  "mset (py_sorted xs rv) = mset xs \<and> (\<not> rv \<longrightarrow> sorted (py_sorted xs rv))
   \<and> (rv \<longrightarrow> sorted (rev (py_sorted xs rv)))"
  by (simp add: py_sorted_def)


text \<open>
  C9 fails as stated. With the parallel flag set, a configured PID-file path that does not
  end in \<^verbatim>\<open>.pid\<close> is resolved unchanged, with no process id in it, and a process id of
  six digits is inserted with six digits.
\<close>

theorem parallel_naming_needs_pid_suffix:
  "get_fn_pidfile True ''/run/d.lock'' 42 = ''/run/d.lock''
   \<and> get_fn_pidfile True ''/run/d.pid'' 123456 = ''/run/d.123456.pid''"
  by (simp add: get_fn_pidfile_def re_sub_ext_def endswith_def format_05d_def str_nat.simps
                digit_char_def)

text \<open>
  C9, amended. With the parallel flag set and the process id \<open>p\<close>, a configured PID-file
  path ending in \<^verbatim>\<open>.pid\<close> (a state-file path ending in \<^verbatim>\<open>.state\<close>) is resolved to
  the path with a dot and the decimal process id, padded with zeros to at least five digits
  (exactly five below 100000), inserted before that ending; a path that ends neither in
  that text nor in that text and a line feed is resolved unchanged. The enumeration returns
  exactly the paths \<^verbatim>\<open>glob.glob\<close> finds for the pattern \<^verbatim>\<open>run_dir/name*.pid\<close>,
  in ascending order by default and in descending order when \<^verbatim>\<open>reverse\<close> is set.
\<close>

theorem parallel_naming:
  "get_fn_pidfile True (base @ ''.pid'') p = base @ ''.'' @ format_05d p @ ''.pid''
   \<and> get_fn_state True (base @ ''.state'') p = base @ ''.'' @ format_05d p @ ''.state''
   \<and> decimal_value (format_05d p) = p
   \<and> 5 \<le> length (format_05d p) \<and> (p < 100000 \<longrightarrow> length (format_05d p) = 5)
   \<and> (\<not> endswith f ''.pid'' \<and> \<not> endswith f (''.pid'' @ [CHR 0x0A]) \<longrightarrow>
        get_fn_pidfile True f p = f)
   \<and> (\<not> endswith f ''.state'' \<and> \<not> endswith f (''.state'' @ [CHR 0x0A]) \<longrightarrow>
        get_fn_state True f p = f)
   \<and> (run \<noteq> [] \<and> last run \<noteq> CHR ''/'' \<and> name \<noteq> [] \<and> hd name \<noteq> CHR ''/'' \<longrightarrow>
        mset (pidfiles_list glob_glob run name rv) = mset (glob_glob (run @ ''/'' @ name @ ''*.pid'')))
   \<and> (\<not> rv \<longrightarrow> sorted (pidfiles_list glob_glob run name rv))
   \<and> (rv \<longrightarrow> sorted (rev (pidfiles_list glob_glob run name rv)))"
proof -
  have pid: "get_fn_pidfile True (base @ ''.pid'') p = base @ ''.'' @ format_05d p @ ''.pid''"
    unfolding get_fn_pidfile_def by (simp only: re_sub_ext_match if_False not_True_eq_False)
  have state: "get_fn_state True (base @ ''.state'') p = base @ ''.'' @ format_05d p @ ''.state''"
    unfolding get_fn_state_def by (simp only: re_sub_ext_match if_False not_True_eq_False)
  have keep_pid: "get_fn_pidfile True f p = f"
    if "\<not> endswith f ''.pid'' \<and> \<not> endswith f (''.pid'' @ [CHR 0x0A])"
    using that by (simp add: get_fn_pidfile_def re_sub_ext_def)
  have keep_state: "get_fn_state True f p = f"
    if "\<not> endswith f ''.state'' \<and> \<not> endswith f (''.state'' @ [CHR 0x0A])"
    using that by (simp add: get_fn_state_def re_sub_ext_def)
  have join: "os_path_join run (name @ ''*.pid'') = run @ ''/'' @ name @ ''*.pid''"
    if "run \<noteq> [] \<and> last run \<noteq> CHR ''/'' \<and> name \<noteq> [] \<and> hd name \<noteq> CHR ''/''"
    using that by (simp add: os_path_join_def)
  have all: "mset (pidfiles_list glob_glob run name rv)
               = mset (glob_glob (os_path_join run (name @ ''*.pid'')))"
    by (simp add: pidfiles_list_def Let_def py_sorted_props)
  have asc: "sorted (pidfiles_list glob_glob run name rv)" if "\<not> rv"
    using that by (simp add: pidfiles_list_def Let_def py_sorted_def)
  have desc: "sorted (rev (pidfiles_list glob_glob run name rv))" if "rv"
    using that by (simp add: pidfiles_list_def Let_def py_sorted_def)
  show ?thesis
    using pid state decimal_value_format_05d format_05d_length keep_pid keep_state join all asc desc
    by metis
qed

theorem parallel_naming_witness:
  "get_fn_pidfile True ''/run/d.pid'' 42 = ''/run/d.00042.pid''
   \<and> get_fn_state True ''/run/d.state'' 42 = ''/run/d.00042.state''
   \<and> get_fn_pidfile True ''/run/d.lock'' 42 = ''/run/d.lock''
   \<and> pidfiles_list (\<lambda>p. [''/run/d.00042.pid'', ''/run/d.00007.pid'']) ''/run'' ''d'' False
        = [''/run/d.00007.pid'', ''/run/d.00042.pid'']
   \<and> pidfiles_list (\<lambda>p. [''/run/d.00007.pid'', ''/run/d.00042.pid'']) ''/run'' ''d'' True
        = [''/run/d.00042.pid'', ''/run/d.00007.pid'']"
  using parallel_naming [of "''/run/d''" 42 "''/run/d.lock''" "''/run''" "''d''"
          "\<lambda>p. [''/run/d.00042.pid'', ''/run/d.00007.pid'']" False]
  by (simp add: endswith_def format_05d_def str_nat.simps digit_char_def
                pidfiles_list_def py_sorted_def os_path_join_def numeral_3_eq_3)

subsection \<open>The event loop\<close>

lemma run_handlers_end:
  "\<not> i < length (lists d ref) \<Longrightarrow> run_handlers env ref i args d calls = Some (Normal d, calls)"
  by (subst run_handlers.simps) simp

lemma run_handlers_raise:
  "i < length (lists d ref) \<Longrightarrow> handler env (lists d ref ! i) d args = Raised e d1 \<Longrightarrow>
   run_handlers env ref i args d calls = Some (Exception e d1, calls @ [(lists d ref ! i, args)])"
  by (subst run_handlers.simps) (simp add: Let_def)

lemma run_handlers_stop:
  "i < length (lists d ref) \<Longrightarrow> handler env (lists d ref ! i) d args = Returned flag args1 d1 \<Longrightarrow>
   flag \<noteq> FLAG_CONTINUE \<Longrightarrow>
   run_handlers env ref i args d calls = Some (Normal d1, calls @ [(lists d ref ! i, args)])"
  by (subst run_handlers.simps) (simp add: Let_def)

lemma run_handlers_continue:
  "i < length (lists d ref) \<Longrightarrow>
   handler env (lists d ref ! i) d args = Returned FLAG_CONTINUE args1 d1 \<Longrightarrow>
   run_handlers env ref i args d calls =
     run_handlers env ref (Suc i) args1 d1 (calls @ [(lists d ref ! i, args)])"
  by (subst run_handlers.simps) (simp add: Let_def)

lemma run_handlers_fixed_chain:
  assumes "\<forall>h\<in>set hs. \<forall>d1 a. lists (hres_state (handler env h d1 a)) ref = lists d1 ref"
    and "lists d ref = hs"
  shows "run_handlers env ref i args d calls =
         Some (case spec_chain env (drop i hs) args d of (out, cs) \<Rightarrow> (out, calls @ cs))"
  using assms(2)
proof (induction "length hs - i" arbitrary: i args d calls)
  case 0
  then have "\<not> i < length (lists d ref)" by simp
  then show ?case using 0 by (simp add: run_handlers_end)
next
  case (Suc n)
  then have lt: "i < length (lists d ref)" by simp
  have dr: "drop i hs = hs ! i # drop (Suc i) hs"
    using lt Suc.prems by (simp add: Cons_nth_drop_Suc)
  have mem: "hs ! i \<in> set hs" using lt Suc.prems by simp
  show ?case
  proof (cases "handler env (hs ! i) d args")
    case (Raised e d1)
    then show ?thesis using lt dr Suc.prems by (simp add: run_handlers_raise)
  next
    case (Returned flag args1 d1)
    show ?thesis
    proof (cases "flag = FLAG_CONTINUE")
      case False
      then show ?thesis using lt dr Suc.prems Returned by (simp add: run_handlers_stop)
    next
      case True
      have "lists (hres_state (handler env (hs ! i) d args)) ref = lists d ref"
        using assms(1) mem by blast
      then have keep: "lists d1 ref = hs" using Returned Suc.prems by simp
      have "n = length hs - Suc i" using Suc.hyps(2) by simp
      then have "run_handlers env ref (Suc i) args1 d1 (calls @ [(hs ! i, args)]) =
         Some (case spec_chain env (drop (Suc i) hs) args1 d1 of
                 (out, cs) \<Rightarrow> (out, (calls @ [(hs ! i, args)]) @ cs))"
        using Suc.hyps(1) keep by blast
      then show ?thesis
        using lt dr Suc.prems Returned True
        by (simp add: run_handlers_continue split: prod.splits)
    qed
  qed
qed

lemma spec_chain_in_order:
  "map fst (snd (spec_chain env hs args d)) = take (length (snd (spec_chain env hs args d))) hs"
proof (induction hs arbitrary: args d)
  case Nil
  then show ?case by simp
next
  case (Cons h hs)
  show ?case
  proof (cases "handler env h d args")
    case (Raised e d1)
    then show ?thesis by simp
  next
    case (Returned flag args1 d1)
    then show ?thesis using Cons.IH [of args1 d1]
      by (auto split: prod.splits)
  qed
qed


lemma event_loop_try_dispatch:
  assumes "daemon_queue_next env d = (Inr ((Some ev, args), q), d1)" and "ev \<noteq> []"
  shows "event_loop_try env d =
           (case callbacks d1 ev of
              None \<Rightarrow> Some (Exception (ZenDaemonException
                             (''There is no callback to handle event '' @ [CHR 0x27] @ ev
                              @ [CHR 0x27])) (d1\<lparr>queue := q\<rparr>), [])
            | Some ref \<Rightarrow> run_handlers env ref 0 args (d1\<lparr>queue := q\<rparr>) [])"
  using assms by (simp add: event_loop_try_def Let_def split: option.splits)


text \<open>
  C4. Let the loop dequeue an event \<open>ev\<close> with the arguments \<open>args\<close> whose registry
  entry is the list \<open>ref\<close>, and let \<open>d2\<close> be the daemon at that point. If the handlers
  of that list leave the list as it is, the dispatch does what the specification's chain
  does on the list: the handlers are invoked in the order of the list, each with the
  \<^verbatim>\<open>args\<close> its predecessor returned, up to the first one that raises or returns a flag
  other than \<^verbatim>\<open>FLAG_CONTINUE\<close>. The handlers called are always an initial segment of
  the chain. And when the first handler returns \<^verbatim>\<open>FLAG_STOP\<close>, it is the only one
  invoked.
\<close>

theorem handler_chain_order:
  assumes "daemon_queue_next env d = (Inr ((Some ev, args), q), d1)" and "ev \<noteq> []"
    and "callbacks d1 ev = Some ref" and "d2 = d1\<lparr>queue := q\<rparr>"
  shows "((\<forall>h\<in>set (lists d2 ref). \<forall>s a. lists (hres_state (handler env h s a)) ref = lists s ref)
            \<longrightarrow> event_loop_try env d = Some (spec_chain env (lists d2 ref) args d2))
       \<and> map fst (snd (spec_chain env hs args0 s0))
           = take (length (snd (spec_chain env hs args0 s0))) hs
       \<and> (lists d2 ref = h1 # rest \<and> handler env h1 d2 args = Returned FLAG_STOP args1 d3
            \<longrightarrow> event_loop_try env d = Some (Normal d3, [(h1, args)]))"
proof (intro conjI impI)
  have tr: "event_loop_try env d = run_handlers env ref 0 args d2 []"
    using event_loop_try_dispatch [OF assms(1) assms(2)] assms(3) assms(4) by simp
  {
    assume "\<forall>h\<in>set (lists d2 ref). \<forall>s a. lists (hres_state (handler env h s a)) ref = lists s ref"
    then have "run_handlers env ref 0 args d2 [] =
       Some (case spec_chain env (drop 0 (lists d2 ref)) args d2 of (out, cs) \<Rightarrow> (out, [] @ cs))"
      by (intro run_handlers_fixed_chain) simp_all
    then show "event_loop_try env d = Some (spec_chain env (lists d2 ref) args d2)"
      using tr by (simp split: prod.splits)
  }
  show "map fst (snd (spec_chain env hs args0 s0))
       = take (length (snd (spec_chain env hs args0 s0))) hs"
    by (rule spec_chain_in_order)
  {
    assume a: "lists d2 ref = h1 # rest \<and> handler env h1 d2 args = Returned FLAG_STOP args1 d3"
    then have "0 < length (lists d2 ref)"
      "handler env (lists d2 ref ! 0) d2 args = Returned FLAG_STOP args1 d3"
      by simp_all
    then have "run_handlers env ref 0 args d2 [] = Some (Normal d3, [] @ [(lists d2 ref ! 0, args)])"
      by (rule run_handlers_stop) (simp add: FLAG_STOP_def FLAG_CONTINUE_def)
    then show "event_loop_try env d = Some (Normal d3, [(h1, args)])"
      using a tr by simp
  }
qed

lemma init_event_callback_new:
  "callbacks d event = None \<Longrightarrow>
   init_event_callback d event h False =
     d\<lparr>callbacks := (callbacks d)(event \<mapsto> next_ref d),
       lists := (lists d)(next_ref d := [h]),
       next_ref := Suc (next_ref d)\<rparr>"
  by (simp add: init_event_callback_def Let_def)

lemma init_event_callback_append:
  "callbacks d event = Some r \<Longrightarrow>
   init_event_callback d event h False = d\<lparr>lists := (lists d)(r := lists d r @ [h])\<rparr>"
  by (simp add: init_event_callback_def Let_def)

lemma chain_daemon_eq:
  "daemon_schedule (init_event_callback (init_event_callback (init_event_callback empty_daemon
       ''e'' 0 False) ''e'' 1 False) ''e'' 2 False) ''e'' None
   = \<lparr>flag_done = False, queue = \<lparr>events = [(''e'', None)], events_at = []\<rparr>,
      callbacks = [''e'' \<mapsto> 0], lists = (\<lambda>r. [])(0 := [0, 1, 2]),
      next_ref = 1, logger = [], time_reads = 0, world = ()\<rparr>"
  by (simp add: init_event_callback_new init_event_callback_append empty_daemon_def daemon_schedule_def
                schedule_def init_queue_def)

theorem handler_chain_order_witness:
  "calls_made (event_loop_try chain_env
     (daemon_schedule (init_event_callback (init_event_callback (init_event_callback empty_daemon
        ''e'' 0 False) ''e'' 1 False) ''e'' 2 False) ''e'' None))
   = [(0, None), (1, Some 1)]
   \<and> raised (event_loop_try chain_env
     (daemon_schedule (init_event_callback (init_event_callback (init_event_callback empty_daemon
        ''e'' 0 False) ''e'' 1 False) ''e'' 2 False) ''e'' None))
   = None"
proof -
  let ?d = "\<lparr>flag_done = False, queue = \<lparr>events = [(''e'', None)], events_at = []\<rparr>,
      callbacks = [''e'' \<mapsto> 0], lists = (\<lambda>r. [])(0 := [0, 1, 2]),
      next_ref = 1, logger = [], time_reads = 0, world = ()\<rparr> :: (nat, unit) ZenDaemon"
  let ?q = "\<lparr>events = [], events_at = []\<rparr> :: nat EventQueueManager"
  have dq: "daemon_queue_next chain_env ?d = (Inr ((Some ''e'', None), ?q), ?d)"
    by (simp add: daemon_queue_next_def queue_next_def)
  have ne: "''e'' \<noteq> []" by simp
  have cb: "callbacks ?d ''e'' = Some 0" by simp
  have frame: "\<forall>h\<in>set (lists (?d\<lparr>queue := ?q\<rparr>) 0). \<forall>s a.
                 lists (hres_state (handler chain_env h s a)) 0 = lists s 0"
    by (simp add: chain_env_def)
  have "event_loop_try chain_env ?d
          = Some (spec_chain chain_env (lists (?d\<lparr>queue := ?q\<rparr>) 0) None (?d\<lparr>queue := ?q\<rparr>))"
    using handler_chain_order [OF dq ne cb refl] frame by blast
  then show ?thesis
    unfolding chain_daemon_eq
    by (simp add: chain_env_def FLAG_CONTINUE_def FLAG_STOP_def calls_made_def raised_def)
qed

lemma run_handlers_live_chain:
  assumes "run_handlers env ref i args d calls = Some y"
  shows "(\<forall>h s a. I s \<longrightarrow> I (hres_state (handler env h s a))
             \<and> (\<exists>ext. lists (hres_state (handler env h s a)) ref = lists s ref @ ext)) \<longrightarrow>
         I d \<longrightarrow>
         I (outcome_state (fst y))
         \<and> (\<exists>ext. lists (outcome_state (fst y)) ref = lists d ref @ ext)
         \<and> (\<exists>cs. snd y = calls @ cs
               \<and> spec_chain env (drop i (lists (outcome_state (fst y)) ref)) args d = (fst y, cs))"
proof (rule run_handlers.raw_induct [where P = "\<lambda>env ref i args d calls y.
         (\<forall>h s a. I s \<longrightarrow> I (hres_state (handler env h s a))
             \<and> (\<exists>ext. lists (hres_state (handler env h s a)) ref = lists s ref @ ext)) \<longrightarrow>
         I d \<longrightarrow>
         I (outcome_state (fst y))
         \<and> (\<exists>ext. lists (outcome_state (fst y)) ref = lists d ref @ ext)
         \<and> (\<exists>cs. snd y = calls @ cs
               \<and> spec_chain env (drop i (lists (outcome_state (fst y)) ref)) args d = (fst y, cs))",
       OF _ assms])
  fix rh :: "('a, 'b) env \<Rightarrow> nat \<Rightarrow> nat \<Rightarrow> 'a option \<Rightarrow> ('a, 'b) ZenDaemon \<Rightarrow> 'a calls \<Rightarrow>
             (('a, 'b) ZenDaemon outcome \<times> 'a calls) option"
    and env :: "('a, 'b) env" and ref i args and d :: "('a, 'b) ZenDaemon" and calls y
  assume IH: "\<And>env ref i args d calls y. rh env ref i args d calls = Some y \<Longrightarrow>
         (\<forall>h s a. I s \<longrightarrow> I (hres_state (handler env h s a))
             \<and> (\<exists>ext. lists (hres_state (handler env h s a)) ref = lists s ref @ ext)) \<longrightarrow>
         I d \<longrightarrow>
         I (outcome_state (fst y))
         \<and> (\<exists>ext. lists (outcome_state (fst y)) ref = lists d ref @ ext)
         \<and> (\<exists>cs. snd y = calls @ cs
               \<and> spec_chain env (drop i (lists (outcome_state (fst y)) ref)) args d = (fst y, cs))"
    and body: "(if i < length (lists d ref)
      then let h = lists d ref ! i; calls1 = calls @ [(h, args)]
           in case handler env h d args of
              Returned flag args1 d1 \<Rightarrow>
                if flag \<noteq> FLAG_CONTINUE then Some (Normal d1, calls1)
                else rh env ref (Suc i) args1 d1 calls1
              | Raised e d1 \<Rightarrow> Some (Exception e d1, calls1)
      else Some (Normal d, calls)) = Some y"
  show "(\<forall>h s a. I s \<longrightarrow> I (hres_state (handler env h s a))
             \<and> (\<exists>ext. lists (hres_state (handler env h s a)) ref = lists s ref @ ext)) \<longrightarrow>
         I d \<longrightarrow>
         I (outcome_state (fst y))
         \<and> (\<exists>ext. lists (outcome_state (fst y)) ref = lists d ref @ ext)
         \<and> (\<exists>cs. snd y = calls @ cs
               \<and> spec_chain env (drop i (lists (outcome_state (fst y)) ref)) args d = (fst y, cs))"
  proof (intro impI)
    assume step: "\<forall>h s a. I s \<longrightarrow> I (hres_state (handler env h s a))
             \<and> (\<exists>ext. lists (hres_state (handler env h s a)) ref = lists s ref @ ext)"
      and inv: "I d"
    show "I (outcome_state (fst y))
         \<and> (\<exists>ext. lists (outcome_state (fst y)) ref = lists d ref @ ext)
         \<and> (\<exists>cs. snd y = calls @ cs
               \<and> spec_chain env (drop i (lists (outcome_state (fst y)) ref)) args d = (fst y, cs))"
    proof (cases "i < length (lists d ref)")
      case False
      then have y: "y = (Normal d, calls)" using body by simp
      show ?thesis using y inv False by simp
    next
      case True
      let ?h = "lists d ref ! i"
      let ?calls1 = "calls @ [(?h, args)]"
      have grow: "I (hres_state (handler env ?h d args))"
        "\<exists>ext. lists (hres_state (handler env ?h d args)) ref = lists d ref @ ext"
        using step inv by blast+
      have dr: "drop i (lists d ref @ ext) = ?h # drop (Suc i) (lists d ref @ ext)" for ext
        using True by (metis Cons_nth_drop_Suc length_append nth_append trans_less_add1)
      show ?thesis
      proof (cases "handler env ?h d args")
        case (Raised e d1)
        then have y: "y = (Exception e d1, ?calls1)" using body True by (simp add: Let_def)
        obtain ext where ext: "lists d1 ref = lists d ref @ ext" using grow(2) Raised by auto
        have "I d1" using grow(1) Raised by simp
        moreover have "spec_chain env (drop i (lists d1 ref)) args d = (Exception e d1, [(?h, args)])"
          unfolding ext dr using Raised by simp
        ultimately show ?thesis using y ext by simp
      next
        case (Returned flag args1 d1)
        obtain ext where ext: "lists d1 ref = lists d ref @ ext" using grow(2) Returned by auto
        have inv1: "I d1" using grow(1) Returned by simp
        show ?thesis
        proof (cases "flag = FLAG_CONTINUE")
          case False
          then have y: "y = (Normal d1, ?calls1)"
            using body True Returned by (simp add: Let_def)
          have "spec_chain env (drop i (lists d1 ref)) args d = (Normal d1, [(?h, args)])"
            unfolding ext dr using Returned False by simp
          then show ?thesis using y ext inv1 by simp
        next
          case cont: True
          then have rec: "rh env ref (Suc i) args1 d1 ?calls1 = Some y"
            using body True Returned by (simp add: Let_def)
          have r: "I (outcome_state (fst y))
             \<and> (\<exists>ext. lists (outcome_state (fst y)) ref = lists d1 ref @ ext)
             \<and> (\<exists>cs. snd y = ?calls1 @ cs
               \<and> spec_chain env (drop (Suc i) (lists (outcome_state (fst y)) ref)) args1 d1 = (fst y, cs))"
            using IH [OF rec] step inv1 by blast
          then obtain ext2 cs where e2: "lists (outcome_state (fst y)) ref = lists d1 ref @ ext2"
            and cs: "snd y = ?calls1 @ cs"
            and sc: "spec_chain env (drop (Suc i) (lists (outcome_state (fst y)) ref)) args1 d1 = (fst y, cs)"
            by blast
          have F: "lists (outcome_state (fst y)) ref = lists d ref @ (ext @ ext2)"
            using e2 ext by simp
          have "spec_chain env (drop i (lists (outcome_state (fst y)) ref)) args d
                  = (fst y, (?h, args) # cs)"
            using sc unfolding F dr using Returned cont by simp
          moreover have "snd y = calls @ ((?h, args) # cs)" using cs by simp
          ultimately show ?thesis using r F by blast
        qed
      qed
    qed
  qed
qed

lemma run_handlers_bounded:
  assumes step: "\<forall>h s a. I s \<longrightarrow> I (hres_state (handler env h s a))"
    and bound: "\<forall>s. I s \<longrightarrow> length (lists s ref) \<le> N"
  shows "I d \<Longrightarrow> \<exists>y. run_handlers env ref i args d calls = Some y"
proof (induction "N - i" arbitrary: i args d calls rule: less_induct)
  case less
  show ?case
  proof (cases "i < length (lists d ref)")
    case False
    then show ?thesis by (simp add: run_handlers_end)
  next
    case True
    let ?h = "lists d ref ! i"
    have iN: "i < N" using True bound less.prems by (meson less_le_trans)
    show ?thesis
    proof (cases "handler env ?h d args")
      case (Raised e d1)
      then show ?thesis using run_handlers_raise [OF True Raised] by simp
    next
      case (Returned flag args1 d1)
      have inv1: "I d1" using step less.prems Returned by (metis hres_state.simps(1))
      show ?thesis
      proof (cases "flag = FLAG_CONTINUE")
        case False
        then show ?thesis using run_handlers_stop [OF True Returned False] by simp
      next
        case cont: True
        have "run_handlers env ref i args d calls
                = run_handlers env ref (Suc i) args1 d1 (calls @ [(?h, args)])"
          using True Returned cont by (intro run_handlers_continue) simp_all
        moreover have "\<exists>y. run_handlers env ref (Suc i) args1 d1 (calls @ [(?h, args)]) = Some y"
          using less.hyps [of "Suc i" d1] iN inv1 by simp
        ultimately show ?thesis by simp
      qed
    qed
  qed
qed

lemma reg_daemon_eq:
  "daemon_schedule (init_event_callback empty_daemon ''e'' 0 False) ''e'' None
   = \<lparr>flag_done = False, queue = \<lparr>events = [(''e'', None)], events_at = []\<rparr>,
      callbacks = [''e'' \<mapsto> 0], lists = (\<lambda>r. [])(0 := [0]),
      next_ref = 1, logger = [], time_reads = 0, world = ()\<rparr>"
  by (simp add: init_event_callback_new empty_daemon_def daemon_schedule_def
                schedule_def init_queue_def)

lemma event_loop_try_run:
  assumes "daemon_queue_next env d = (Inr ((Some ev, args), q), d1)" and "ev \<noteq> []"
    and "callbacks d1 ev = Some ref"
  shows "event_loop_try env d = run_handlers env ref 0 args (d1\<lparr>queue := q\<rparr>) []"
  using event_loop_try_dispatch [OF assms(1) assms(2)] assms(3) by simp

lemma run_handlers_registering:
  assumes "lists d2 ref = [h]"
    and "handler env h d2 args = Returned FLAG_CONTINUE args1 d3"
    and "lists d3 ref = [h, h2]"
    and "handler env h2 d3 args1 = Returned flag args2 d4"
    and "lists d4 ref = [h, h2]"
  shows "run_handlers env ref 0 args d2 [] = Some (Normal d4, [(h, args), (h2, args1)])"
proof -
  have s0: "run_handlers env ref 0 args d2 [] = run_handlers env ref (Suc 0) args1 d3 ([] @ [(lists d2 ref ! 0, args)])"
    using assms(1) assms(2) by (intro run_handlers_continue) simp_all
  have lt: "Suc 0 < length (lists d3 ref)" using assms(3) by simp
  have h2: "handler env (lists d3 ref ! Suc 0) d3 args1 = Returned flag args2 d4"
    using assms(3) assms(4) by simp
  have s1: "run_handlers env ref (Suc 0) args1 d3 [(h, args)] = Some (Normal d4, [(h, args), (h2, args1)])"
  proof (cases "flag = FLAG_CONTINUE")
    case False
    have "run_handlers env ref (Suc 0) args1 d3 [(h, args)]
            = Some (Normal d4, [(h, args)] @ [(lists d3 ref ! Suc 0, args1)])"
      using lt h2 False by (rule run_handlers_stop)
    then show ?thesis using assms(3) by simp
  next
    case True
    have "run_handlers env ref (Suc 0) args1 d3 [(h, args)]
            = run_handlers env ref (Suc (Suc 0)) args2 d4 ([(h, args)] @ [(lists d3 ref ! Suc 0, args1)])"
      using lt h2 True by (intro run_handlers_continue) simp_all
    moreover have "\<not> Suc (Suc 0) < length (lists d4 ref)" using assms(5) by simp
    ultimately show ?thesis using assms(3) by (simp add: run_handlers_end)
  qed
  show ?thesis using s0 s1 assms(1) by simp
qed

text \<open>
  C5 fails as stated. The event \<^verbatim>\<open>e\<close> has the one handler 0 when it is dispatched, and
  handler 0 registers handler 1 for \<^verbatim>\<open>e\<close> while it runs. The loop iterates over the
  list object that the registration appends to, so handler 1 is invoked in the same dispatch.
\<close>

theorem registered_handler_runs_in_current_dispatch:
  "callbacks (daemon_schedule (init_event_callback empty_daemon ''e'' 0 False) ''e'' None) ''e''
     = Some 0
   \<and> lists (daemon_schedule (init_event_callback empty_daemon ''e'' 0 False) ''e'' None) 0 = [0]
   \<and> calls_made (event_loop_try registering_env
        (daemon_schedule (init_event_callback empty_daemon ''e'' 0 False) ''e'' None))
     = [(0, None), (1, None)]"
proof -
  let ?d = "\<lparr>flag_done = False, queue = \<lparr>events = [(''e'', None)], events_at = []\<rparr>,
      callbacks = [''e'' \<mapsto> 0], lists = (\<lambda>r. [])(0 := [0]),
      next_ref = 1, logger = [], time_reads = 0, world = ()\<rparr> :: (nat, unit) ZenDaemon"
  let ?q = "\<lparr>events = [], events_at = []\<rparr> :: nat EventQueueManager"
  let ?d2 = "?d\<lparr>queue := ?q\<rparr>"
  let ?d3 = "?d2\<lparr>lists := (lists ?d2)(0 := [0, 1])\<rparr>"
  have dq: "daemon_queue_next registering_env ?d = (Inr ((Some ''e'', None), ?q), ?d)"
    by (simp add: daemon_queue_next_def queue_next_def)
  have tr: "event_loop_try registering_env ?d = run_handlers registering_env 0 0 None ?d2 []"
    by (rule event_loop_try_run [OF dq]) simp_all
  have h0: "handler registering_env 0 ?d2 None = Returned FLAG_CONTINUE None ?d3"
    by (simp add: registering_env_def is_registered_def init_event_callback_append)
  have h1: "handler registering_env 1 ?d3 None = Returned FLAG_CONTINUE None ?d3"
    by (simp add: registering_env_def)
  have "run_handlers registering_env 0 0 None ?d2 [] = Some (Normal ?d3, [(0, None), (1, None)])"
    by (rule run_handlers_registering [OF _ h0 _ h1]) simp_all
  then show ?thesis
    unfolding reg_daemon_eq using tr by (simp add: calls_made_def)
qed



text \<open>
  C5, amended. The registry is consulted once for a dispatched event: the dispatch runs on
  the list object \<open>ref\<close> found then, whatever handlers do to the registry's mapping
  afterwards. The loop reads that list object itself, not a copy, and a registration for the
  same event without \<^verbatim>\<open>prepend\<close> appends to it in place. So let the handlers, in every
  state of an invariant \<open>I\<close> they keep, at most append to that list. Then a dispatch that
  ends has invoked the handlers of the list as it stands at the end of the dispatch, those
  appended during the dispatch included: it is the specification's chain over that final
  list, in list order, each handler receiving the \<^verbatim>\<open>args\<close> that the handler before it
  in the list returned, and ended early by a flag other than \<^verbatim>\<open>FLAG_CONTINUE\<close> or by an
  exception; the final list extends the list found when the dispatch began. And the dispatch
  does end when the length of the list is bounded in the states of \<open>I\<close>.
\<close>

theorem handler_list_is_live:
  assumes "daemon_queue_next env (d :: ('a, 'w) ZenDaemon) = (Inr ((Some ev, args), q), d1)"
    and "ev \<noteq> []"
    and "callbacks d1 ev = Some ref" and "d2 = d1\<lparr>queue := q\<rparr>"
    and "\<forall>h s a. I s \<longrightarrow> I (hres_state (handler env h s a))
             \<and> (\<exists>ext. lists (hres_state (handler env h s a)) ref = lists s ref @ ext)"
    and "I d2"
  shows "(callbacks (s :: ('a, 'w) ZenDaemon) ev = Some ref \<longrightarrow>
            lists (init_event_callback s ev h2 False) ref = lists s ref @ [h2]
            \<and> callbacks (init_event_callback s ev h2 False) = callbacks s)
       \<and> (event_loop_try env d = Some (out, calls) \<longrightarrow>
            I (outcome_state out)
            \<and> (\<exists>ext. lists (outcome_state out) ref = lists d2 ref @ ext)
            \<and> spec_chain env (lists (outcome_state out) ref) args d2 = (out, calls))
       \<and> ((\<forall>s. I s \<longrightarrow> length (lists s ref) \<le> N) \<longrightarrow>
            (\<exists>out calls. event_loop_try env d = Some (out, calls)))"
proof -
  have tr: "event_loop_try env d = run_handlers env ref 0 args d2 []"
    using event_loop_try_run [OF assms(1) assms(2) assms(3)] assms(4) by simp
  have app: "lists (init_event_callback s ev h2 False) ref = lists s ref @ [h2]
            \<and> callbacks (init_event_callback s ev h2 False) = callbacks s"
    if "callbacks s ev = Some ref"
    using that by (simp add: init_event_callback_append)
  have live: "I (outcome_state out)
            \<and> (\<exists>ext. lists (outcome_state out) ref = lists d2 ref @ ext)
            \<and> spec_chain env (lists (outcome_state out) ref) args d2 = (out, calls)"
    if b: "event_loop_try env d = Some (out, calls)"
  proof -
    have r: "run_handlers env ref 0 args d2 [] = Some (out, calls)" using b tr by simp
    have "I (outcome_state (fst (out, calls)))
         \<and> (\<exists>ext. lists (outcome_state (fst (out, calls))) ref = lists d2 ref @ ext)
         \<and> (\<exists>cs. snd (out, calls) = [] @ cs
               \<and> spec_chain env (drop 0 (lists (outcome_state (fst (out, calls))) ref)) args d2
                   = (fst (out, calls), cs))"
      using run_handlers_live_chain [OF r, of I] assms(5) assms(6) by blast
    then show ?thesis by simp
  qed
  have ends: "\<exists>out calls. event_loop_try env d = Some (out, calls)"
    if c: "\<forall>s. I s \<longrightarrow> length (lists s ref) \<le> N"
  proof -
    have st: "\<forall>h s a. I s \<longrightarrow> I (hres_state (handler env h s a))" using assms(5) by blast
    have "\<exists>y. run_handlers env ref 0 args d2 [] = Some y"
      using st c assms(6) by (rule run_handlers_bounded)
    then show ?thesis using tr by auto
  qed
  show ?thesis
    apply (rule conjI)
     apply (rule impI)
     apply (erule app)
    apply (rule conjI)
     apply (rule impI)
     apply (erule live)
    apply (rule impI)
    apply (erule ends)
    done
qed

lemma reg2_daemon_eq:
  "daemon_schedule (init_event_callback (init_event_callback empty_daemon ''e'' 0 False)
       ''e'' 2 False) ''e'' None
   = \<lparr>flag_done = False, queue = \<lparr>events = [(''e'', None)], events_at = []\<rparr>,
      callbacks = [''e'' \<mapsto> 0], lists = (\<lambda>r. [])(0 := [0, 2]),
      next_ref = 1, logger = [], time_reads = 0, world = ()\<rparr>"
  by (simp add: init_event_callback_new init_event_callback_append empty_daemon_def
                daemon_schedule_def schedule_def init_queue_def)

lemma registering_env_step:
  assumes "callbacks s ''e'' = Some 0 \<and> (lists s 0 = [0, 2] \<or> lists s 0 = [0, 2, 1])"
  shows "(callbacks (hres_state (handler registering_env h s a)) ''e'' = Some 0
          \<and> (lists (hres_state (handler registering_env h s a)) 0 = [0, 2]
              \<or> lists (hres_state (handler registering_env h s a)) 0 = [0, 2, 1]))
         \<and> (\<exists>ext. lists (hres_state (handler registering_env h s a)) 0 = lists s 0 @ ext)"
  using assms
  by (auto simp add: registering_env_def is_registered_def init_event_callback_append)

theorem handler_list_is_live_witness:
  "calls_made (event_loop_try registering_env
        (daemon_schedule (init_event_callback (init_event_callback empty_daemon ''e'' 0 False)
           ''e'' 2 False) ''e'' None))
     = [(0, None), (2, None), (1, None)]
   \<and> raised (event_loop_try registering_env
        (daemon_schedule (init_event_callback (init_event_callback empty_daemon ''e'' 0 False)
           ''e'' 2 False) ''e'' None))
     = None"
proof -
  let ?d = "\<lparr>flag_done = False, queue = \<lparr>events = [(''e'', None)], events_at = []\<rparr>,
      callbacks = [''e'' \<mapsto> 0], lists = (\<lambda>r. [])(0 := [0, 2]),
      next_ref = 1, logger = [], time_reads = 0, world = ()\<rparr> :: (nat, unit) ZenDaemon"
  let ?q = "\<lparr>events = [], events_at = []\<rparr> :: nat EventQueueManager"
  let ?d2 = "?d\<lparr>queue := ?q\<rparr>"
  let ?d3 = "?d2\<lparr>lists := (lists ?d2)(0 := [0, 2, 1])\<rparr>"
  let ?I = "\<lambda>s :: (nat, unit) ZenDaemon.
              callbacks s ''e'' = Some 0 \<and> (lists s 0 = [0, 2] \<or> lists s 0 = [0, 2, 1])"
  have dq: "daemon_queue_next registering_env ?d = (Inr ((Some ''e'', None), ?q), ?d)"
    by (simp add: daemon_queue_next_def queue_next_def)
  have ne: "''e'' \<noteq> []" by simp
  have cb: "callbacks ?d ''e'' = Some 0" by simp
  have step: "\<forall>h s a. ?I s \<longrightarrow> ?I (hres_state (handler registering_env h s a))
             \<and> (\<exists>ext. lists (hres_state (handler registering_env h s a)) 0 = lists s 0 @ ext)"
    using registering_env_step by blast
  have inv: "?I ?d2" by simp
  have bound: "\<forall>s. ?I s \<longrightarrow> length (lists s 0) \<le> 3" by auto
  note inst = handler_list_is_live [OF dq ne cb refl step inv, where N = 3]
  obtain out calls where oc: "event_loop_try registering_env ?d = Some (out, calls)"
    using inst bound by blast
  have fin: "?I (outcome_state out)"
    and sc: "spec_chain registering_env (lists (outcome_state out) 0) None ?d2 = (out, calls)"
    using inst [of _ _ out calls] oc by blast+
  have h0: "handler registering_env 0 ?d2 None = Returned FLAG_CONTINUE None ?d3"
    by (simp add: registering_env_def is_registered_def init_event_callback_append)
  have h2: "handler registering_env 2 ?d3 None = Returned FLAG_CONTINUE None ?d3"
    by (simp add: registering_env_def)
  have h1: "handler registering_env 1 ?d3 None = Returned FLAG_CONTINUE None ?d3"
    by (simp add: registering_env_def)
  have short: "spec_chain registering_env [0, 2] None ?d2 = (Normal ?d3, [(0, None), (2, None)])"
    using h0 h2 by (simp add: numeral_2_eq_2)
  have full: "spec_chain registering_env [0, 2, 1] None ?d2
                = (Normal ?d3, [(0, None), (2, None), (1, None)])"
    using h0 h2 h1 by (simp add: numeral_2_eq_2)
  have "lists (outcome_state out) 0 \<noteq> [0, 2]"
  proof
    assume a: "lists (outcome_state out) 0 = [0, 2]"
    then have "out = Normal ?d3" using sc short by simp
    then show False using a by simp
  qed
  then have "lists (outcome_state out) 0 = [0, 2, 1]" using fin by blast
  then have "(out, calls) = (Normal ?d3, [(0, None), (2, None), (1, None)])"
    using sc full by simp
  then show ?thesis
    unfolding reg2_daemon_eq using oc by (simp add: calls_made_def raised_def)
qed

lemma event_loop_while_exception:
  "\<not> flag_done d \<Longrightarrow> event_loop_body env d = Some (Exception e d1, calls1) \<Longrightarrow>
   event_loop_while env d calls = Some (Exception e d1, calls @ calls1)"
  by (subst event_loop_while.simps) simp

lemma event_loop_while_normal:
  "\<not> flag_done d \<Longrightarrow> event_loop_body env d = Some (Normal d1, calls1) \<Longrightarrow>
   event_loop_while env d calls = event_loop_while env d1 (calls @ calls1)"
  by (subst event_loop_while.simps) simp

lemma event_loop_while_done:
  "flag_done d \<Longrightarrow> event_loop_while env d calls = Some (Normal d, calls)"
  by (subst event_loop_while.simps) simp

text \<open>
  C6 fails as stated. The event with the empty name has no entry in the registry of
  \<open>empty_daemon\<close>. When the loop dequeues it, the test \<^verbatim>\<open>if event:\<close> takes it for the
  placeholder: with nothing else queued, \<^verbatim>\<open>queue.wait()\<close> raises \<^verbatim>\<open>IndexError\<close>,
  which leaves the loop; with another event queued behind it, the iteration ends normally
  and the event is dropped. No \<^verbatim>\<open>ZenDaemonException\<close> is raised in either case.
\<close>

theorem empty_event_name_is_not_unknown_event:
  "callbacks (daemon_schedule empty_daemon [] None) [] = None
   \<and> raised (event_loop_body chain_env (daemon_schedule empty_daemon [] None)) = Some IndexError
   \<and> raised (event_loop chain_env (daemon_schedule empty_daemon [] None)) = Some IndexError
   \<and> raised (event_loop_body chain_env
              (daemon_schedule (daemon_schedule empty_daemon [] None) ''e'' None)) = None
   \<and> calls_made (event_loop_body chain_env
              (daemon_schedule (daemon_schedule empty_daemon [] None) ''e'' None)) = []"
proof -
  have b1: "event_loop_body chain_env (daemon_schedule empty_daemon [] None)
          = Some (Exception IndexError (empty_daemon\<lparr>queue := \<lparr>events = [], events_at = []\<rparr>\<rparr>), [])"
    by (simp add: event_loop_body_def event_loop_try_def daemon_queue_next_def queue_next_def
                  daemon_queue_wait_def queue_wait_def daemon_schedule_def schedule_def
                  empty_daemon_def init_queue_def)
  have nd: "\<not> flag_done ((daemon_schedule empty_daemon [] None)\<lparr>flag_done := False\<rparr>)" by simp
  have same: "(daemon_schedule empty_daemon [] None)\<lparr>flag_done := False\<rparr>
                = daemon_schedule empty_daemon [] None"
    by (simp add: daemon_schedule_def empty_daemon_def)
  have l1: "event_loop chain_env (daemon_schedule empty_daemon [] None)
          = Some (Exception IndexError (empty_daemon\<lparr>queue := \<lparr>events = [], events_at = []\<rparr>\<rparr>), [])"
    unfolding event_loop_def same
    using event_loop_while_exception [OF _ b1, of "[]"] nd same by simp
  have b2: "event_loop_body chain_env (daemon_schedule (daemon_schedule empty_daemon [] None) ''e'' None)
          = Some (Normal (empty_daemon\<lparr>queue := \<lparr>events = [(''e'', None)], events_at = []\<rparr>\<rparr>), [])"
    by (simp add: event_loop_body_def event_loop_try_def daemon_queue_next_def queue_next_def
                  daemon_queue_wait_def queue_wait_def daemon_schedule_def schedule_def
                  empty_daemon_def init_queue_def)
  show ?thesis using b1 l1 b2
    by (simp add: raised_def calls_made_def daemon_schedule_def empty_daemon_def)
qed

text \<open>
  C6, amended. If the loop dequeues an event whose name is not empty and has no entry in the
  registry, the iteration raises \<^verbatim>\<open>ZenDaemonException\<close> with the message
  \<^verbatim>\<open>There is no callback to handle event 'ev'\<close>, which holds the event name; no handler
  is called, and the exception leaves the loop.
\<close>

theorem unknown_event_is_fatal:
  assumes "daemon_queue_next env d = (Inr ((Some ev, args), q), d1)" and "ev \<noteq> []"
    and "callbacks d1 ev = None"
  shows "event_loop_body env d =
           Some (Exception (ZenDaemonException
                   (''There is no callback to handle event '' @ [CHR 0x27] @ ev @ [CHR 0x27]))
                 (d1\<lparr>queue := q\<rparr>), [])
       \<and> (\<not> flag_done d \<longrightarrow>
            event_loop_while env d calls =
              Some (Exception (ZenDaemonException
                      (''There is no callback to handle event '' @ [CHR 0x27] @ ev @ [CHR 0x27]))
                    (d1\<lparr>queue := q\<rparr>), calls))"
proof -
  have tr: "event_loop_try env d =
           Some (Exception (ZenDaemonException
                   (''There is no callback to handle event '' @ [CHR 0x27] @ ev @ [CHR 0x27]))
                 (d1\<lparr>queue := q\<rparr>), [])"
    using event_loop_try_dispatch [OF assms(1) assms(2)] assms(3) by simp
  then have body: "event_loop_body env d =
           Some (Exception (ZenDaemonException
                   (''There is no callback to handle event '' @ [CHR 0x27] @ ev @ [CHR 0x27]))
                 (d1\<lparr>queue := q\<rparr>), [])"
    by (simp add: event_loop_body_def)
  have "event_loop_while env d calls =
              Some (Exception (ZenDaemonException
                      (''There is no callback to handle event '' @ [CHR 0x27] @ ev @ [CHR 0x27]))
                    (d1\<lparr>queue := q\<rparr>), calls)" if "\<not> flag_done d"
    using event_loop_while_exception [OF that body, of calls] by simp
  then show ?thesis using body by blast
qed

theorem unknown_event_is_fatal_witness:
  "raised (event_loop chain_env (daemon_schedule empty_daemon ''nope'' None))
     = Some (ZenDaemonException
               (''There is no callback to handle event '' @ [CHR 0x27] @ ''nope'' @ [CHR 0x27]))
   \<and> calls_made (event_loop chain_env (daemon_schedule empty_daemon ''nope'' None)) = []"
proof -
  let ?d = "daemon_schedule empty_daemon ''nope'' None"
  let ?q = "\<lparr>events = [], events_at = []\<rparr> :: nat EventQueueManager"
  have same: "?d\<lparr>flag_done := False\<rparr> = ?d"
    by (simp add: daemon_schedule_def empty_daemon_def)
  have dq: "daemon_queue_next chain_env ?d = (Inr ((Some ''nope'', None), ?q), ?d)"
    by (simp add: daemon_queue_next_def queue_next_def daemon_schedule_def schedule_def
                  empty_daemon_def init_queue_def)
  have ne: "''nope'' \<noteq> []" by simp
  have cb: "callbacks ?d ''nope'' = None"
    by (simp add: daemon_schedule_def empty_daemon_def)
  have nd: "\<not> flag_done ?d" by (simp add: daemon_schedule_def empty_daemon_def)
  have "event_loop_while chain_env ?d [] =
          Some (Exception (ZenDaemonException
                  (''There is no callback to handle event '' @ [CHR 0x27] @ ''nope'' @ [CHR 0x27]))
                (?d\<lparr>queue := ?q\<rparr>), [])"
    using unknown_event_is_fatal [OF dq ne cb, of "[]"] nd by blast
  then show ?thesis
    unfolding event_loop_def same by (simp add: raised_def calls_made_def)
qed

text \<open>
  C7. When both stores of the queue are empty, \<^verbatim>\<open>next()\<close> raises
  \<^verbatim>\<open>QueueEmptyException\<close>; the iteration of the loop catches it and ends normally, having
  logged the record \<^verbatim>\<open>Event queue is empty, terminating\<close> at level INFO and set
  \<^verbatim>\<open>flag_done\<close>; the loop then terminates normally with \<^verbatim>\<open>flag_done\<close> set, with no
  handler called.
\<close>

theorem queue_empty_terminates_loop:
  assumes "events (queue d) = []" and "events_at (queue d) = []"
  shows "queue_next (queue d) now = Inl (QueueEmptyException ''Event queue is empty'')
       \<and> event_loop_body env d =
           Some (Normal ((logger_info d ''Event queue is empty, terminating'')
                           \<lparr>flag_done := True\<rparr>), [])
       \<and> (\<not> flag_done d \<longrightarrow>
            event_loop_while env d calls =
              Some (Normal ((logger_info d ''Event queue is empty, terminating'')
                              \<lparr>flag_done := True\<rparr>), calls))
       \<and> event_loop env d =
           Some (Normal ((logger_info (d\<lparr>flag_done := False\<rparr>)
                            ''Event queue is empty, terminating'')\<lparr>flag_done := True\<rparr>), [])"
proof -
  have qn: "queue_next (queue d) now = Inl (QueueEmptyException ''Event queue is empty'')" for now
    using assms by (simp add: queue_next_def)
  have body: "event_loop_body env s =
           Some (Normal ((logger_info s ''Event queue is empty, terminating'')
                           \<lparr>flag_done := True\<rparr>), [])"
    if "queue s = queue d" for s
    using that assms qn
    by (simp add: event_loop_body_def event_loop_try_def daemon_queue_next_def)
  have loop: "event_loop_while env s calls =
              Some (Normal ((logger_info s ''Event queue is empty, terminating'')
                              \<lparr>flag_done := True\<rparr>), calls)"
    if q: "queue s = queue d" and nd: "\<not> flag_done s" for s calls
  proof -
    have "event_loop_while env s calls =
            event_loop_while env ((logger_info s ''Event queue is empty, terminating'')
                              \<lparr>flag_done := True\<rparr>) (calls @ [])"
      using nd body [OF q] by (rule event_loop_while_normal)
    then show ?thesis by (simp add: event_loop_while_done)
  qed
  have "event_loop env d =
           Some (Normal ((logger_info (d\<lparr>flag_done := False\<rparr>)
                            ''Event queue is empty, terminating'')\<lparr>flag_done := True\<rparr>), [])"
    unfolding event_loop_def by (rule loop) simp_all
  then show ?thesis using qn body [of d] loop [of d calls] by simp
qed

theorem queue_empty_terminates_loop_witness:
  "event_loop chain_env empty_daemon =
     Some (Normal (empty_daemon\<lparr>logger := [(''INFO'', ''Event queue is empty, terminating'')],
                                flag_done := True\<rparr>), [])"
proof -
  have "events (queue empty_daemon) = []" "events_at (queue empty_daemon) = []"
    by (simp_all add: empty_daemon_def init_queue_def)
  then show ?thesis
    using queue_empty_terminates_loop [of empty_daemon 0 chain_env "[]"]
    by (simp add: logger_info_def empty_daemon_def)
qed

end
